theory Spec2Isabelle
  imports Main "HOL-Library.Sublist" "HOL-Library.AList"
begin

section \<open>Strings, values and dictionaries of the host language\<close>

text \<open>
  A Python string is modelled as a \<^typ>\<open>string\<close>, each \<^typ>\<open>char\<close> standing for one
  code point below 256. A dictionary is an association list with pairwise distinct keys,
  listed in iteration (insertion) order: \<open>d[k] = v\<close> is \<open>AList.update k v d\<close> (an existing
  key keeps its place, a new key goes to the end), \<open>d.pop(k, default)\<close> is a lookup with
  \<^const>\<open>map_of\<close> followed by \<open>AList.delete k d\<close>, and \<open>k in d\<close> is membership in the
  list of keys. A set of strings is a list of its members in iteration order.
\<close>

type_synonym 'v dict = "(string \<times> 'v) list"

datatype error = TypeError string | IndexError | AttributeError

datatype pyval =
    PStr string
  | PInt int
  | PBool bool
  | PNone
  | PList "pyval list"
  | PDict "(string \<times> pyval) list"
  | PSet "string list"

abbreviation dquote :: char where "dquote \<equiv> CHR 0x22"
abbreviation backslash :: char where "backslash \<equiv> CHR 0x5C"
abbreviation newline :: char where "newline \<equiv> CHR 0x0A"

text \<open>\<open>sep.join(xs)\<close>\<close>

fun join :: "string \<Rightarrow> string list \<Rightarrow> string" where
  "join sep [] = []"
| "join sep [x] = x"
| "join sep (x # y # ys) = x @ sep @ join sep (y # ys)"

text \<open>\<open>s.replace(old, new)\<close>: the occurrences of \<open>old\<close> are found from the left and do
  not overlap; an empty \<open>old\<close> matches before every character and at the end.\<close>

fun str_replace :: "string \<Rightarrow> string \<Rightarrow> string \<Rightarrow> string" where
  "str_replace old new [] = (if old = [] then new else [])"
| "str_replace old new (c # cs) =
     (if old = [] then new @ c # str_replace old new cs
      else if prefix old (c # cs) then new @ str_replace old new (drop (length old) (c # cs))
      else c # str_replace old new cs)"

text \<open>\<open>bool(v)\<close>, the truth value that \<open>if v:\<close> tests.\<close>

fun truthy :: "pyval \<Rightarrow> bool" where
  "truthy (PStr s) = (s \<noteq> [])"
| "truthy (PInt i) = (i \<noteq> 0)"
| "truthy (PBool b) = b"
| "truthy PNone = False"
| "truthy (PList xs) = (xs \<noteq> [])"
| "truthy (PDict kvs) = (kvs \<noteq> [])"
| "truthy (PSet xs) = (xs \<noteq> [])"

subsection \<open>\<open>json.dumps\<close>\<close>

text \<open>
  \<open>json.dumps\<close> with its default options (ASCII output, separators \<open>", "\<close> and \<open>": "\<close>).
  A set is not serialisable. Floating point numbers are not part of \<^typ>\<open>pyval\<close>.
\<close>

definition hexdigit :: "nat \<Rightarrow> char" where
  "hexdigit n = ''0123456789abcdef'' ! (n mod 16)"

definition json_escape_char :: "char \<Rightarrow> string" where
  "json_escape_char c =
     (if c = dquote then [backslash, dquote]
      else if c = backslash then [backslash, backslash]
      else if c = newline then [backslash, CHR ''n'']
      else if c = CHR 0x0D then [backslash, CHR ''r'']
      else if c = CHR 0x09 then [backslash, CHR ''t'']
      else if c = CHR 0x08 then [backslash, CHR ''b'']
      else if c = CHR 0x0C then [backslash, CHR ''f'']
      else if 32 \<le> (of_char c :: nat) \<and> (of_char c :: nat) \<le> 126 then [c]
      else [backslash, CHR ''u'', CHR ''0'', CHR ''0'',
            hexdigit ((of_char c :: nat) div 16), hexdigit (of_char c :: nat)])"

definition json_str :: "string \<Rightarrow> string" where
  "json_str s = [dquote] @ concat (map json_escape_char s) @ [dquote]"

function dec_nat :: "nat \<Rightarrow> string" where
  "dec_nat n = (if n < 10 then [hexdigit n] else dec_nat (n div 10) @ [hexdigit (n mod 10)])"
  by pat_completeness auto
termination
  by (relation "measure id") auto

definition int_repr :: "int \<Rightarrow> string" where
  "int_repr i = (if i < 0 then CHR ''-'' # dec_nat (nat (- i)) else dec_nat (nat i))"

fun sequence :: "(error + 'a) list \<Rightarrow> error + 'a list" where
  "sequence [] = Inr []"
| "sequence (Inl e # _) = Inl e"
| "sequence (Inr x # rs) = (case sequence rs of Inl e \<Rightarrow> Inl e | Inr xs \<Rightarrow> Inr (x # xs))"

fun json_dumps :: "pyval \<Rightarrow> error + string" where
  "json_dumps (PStr s) = Inr (json_str s)"
| "json_dumps (PInt i) = Inr (int_repr i)"
| "json_dumps (PBool b) = Inr (if b then ''true'' else ''false'')"
| "json_dumps PNone = Inr ''null''"
| "json_dumps (PList xs) =
     (case sequence (map json_dumps xs) of
        Inl e \<Rightarrow> Inl e
      | Inr ss \<Rightarrow> Inr (''['' @ join '', '' ss @ '']''))"
| "json_dumps (PDict kvs) =
     (case sequence (map (\<lambda>kv. case json_dumps (snd kv) of
                                Inl e \<Rightarrow> Inl e
                              | Inr s \<Rightarrow> Inr (json_str (fst kv) @ '': '' @ s)) kvs) of
        Inl e \<Rightarrow> Inl e
      | Inr ss \<Rightarrow> Inr (''{'' @ join '', '' ss @ ''}''))"
| "json_dumps (PSet xs) = Inl (TypeError ''Object of type set is not JSON serializable'')"

section \<open>The attribute transform\<close>

text \<open>
  \<open>classes = attributes.pop("classes", set())\<close> followed by
  \<open>if classes: attributes["class"] = " ".join(classes - {""})\<close>.
  The result is the dictionary as the statement leaves it, and the exception if one is
  raised: the difference with a set is defined on sets only, so any other true value raises
  a \<open>TypeError\<close> after the entry has been popped.
\<close>

definition pop_classes :: "pyval dict \<Rightarrow> pyval dict \<times> error option" where
  "pop_classes attributes =
     (let classes = (case map_of attributes ''classes'' of None \<Rightarrow> PSet [] | Some c \<Rightarrow> c);
          attributes = AList.delete ''classes'' attributes
      in if truthy classes then
           (case classes of
              PSet cs \<Rightarrow>
                (AList.update ''class'' (PStr (join '' '' (filter (\<lambda>c. c \<noteq> []) cs))) attributes,
                 None)
            | _ \<Rightarrow> (attributes, Some (TypeError ''unsupported operand type(s) for -'')))
         else (attributes, None))"

text \<open>\<open>";".join(key + ":" + value for key, value in style.items())\<close>: concatenating a
  value that is not a string raises.\<close>

fun style_items :: "(string \<times> pyval) list \<Rightarrow> error + string list" where
  "style_items [] = Inr []"
| "style_items ((key, PStr v) # rest) =
     (case style_items rest of Inl e \<Rightarrow> Inl e | Inr ss \<Rightarrow> Inr ((key @ '':'' @ v) # ss))"
| "style_items ((key, _) # rest) = Inl (TypeError ''can only concatenate str to str'')"

definition pop_style :: "pyval dict \<Rightarrow> pyval dict \<times> error option" where
  "pop_style attributes =
     (let style = (case map_of attributes ''style'' of None \<Rightarrow> PStr [] | Some s \<Rightarrow> s);
          attributes = AList.delete ''style'' attributes
      in if truthy style then
           (case style of
              PDict kvs \<Rightarrow>
                (case style_items kvs of
                   Inl e \<Rightarrow> (attributes, Some e)
                 | Inr ss \<Rightarrow> (AList.update ''style'' (PStr (join '';'' ss)) attributes, None))
            | _ \<Rightarrow> (AList.update ''style'' style attributes, None))
         else (attributes, None))"

text \<open>The candidate name of the colour check, and the test that skips a key.\<close>

definition unnormalised_colour :: "string \<Rightarrow> string" where
  "unnormalised_colour key =
     (if prefix ''data-'' key then key else str_replace ''color'' ''colour'' key)"

definition skipped :: "string list \<Rightarrow> string \<Rightarrow> bool" where
  "skipped keys key \<longleftrightarrow>
     key \<noteq> unnormalised_colour key \<and> unnormalised_colour key \<in> set keys"

text \<open>The value of an attribute: a value that is not a string is dumped as JSON first;
  then the double quotes are replaced by the entity and the string is dumped as JSON.\<close>

definition encode_value :: "pyval \<Rightarrow> error + string" where
  "encode_value v =
     (case (case v of PStr s \<Rightarrow> Inr s | _ \<Rightarrow> json_dumps v) of
        Inl e \<Rightarrow> Inl e
      | Inr s \<Rightarrow> Inr (json_str (str_replace [dquote] ''&quot;'' s)))"

text \<open>\<open>if key[-1] == "_" and key[-2] != "_": key = key[:-1]\<close>. Indexing raises on the
  empty key, and on the key \<open>"_"\<close> when the second test reads \<open>key[-2]\<close>.\<close>

definition strip_trailing :: "string \<Rightarrow> error + string" where
  "strip_trailing key =
     (case rev key of
        [] \<Rightarrow> Inl IndexError
      | c # r \<Rightarrow>
          if c = CHR ''_'' then
            (case r of
               [] \<Rightarrow> Inl IndexError
             | d # _ \<Rightarrow> if d \<noteq> CHR ''_'' then Inr (butlast key) else Inr key)
          else Inr key)"

text \<open>\<open>key.replace("__", " ").replace("_", "-").replace(" ", "_")\<close>\<close>

definition hyphenate :: "string \<Rightarrow> string" where
  "hyphenate key =
     str_replace '' '' ''_'' (str_replace ''_'' ''-'' (str_replace ''__'' '' '' key))"

text \<open>\<open>if not key.startswith("data-"): key = key.replace("colour", "color")\<close>\<close>

definition rename_colour :: "string \<Rightarrow> string" where
  "rename_colour key =
     (if \<not> prefix ''data-'' key then str_replace ''colour'' ''color'' key else key)"

definition normalise_key :: "string \<Rightarrow> error + string" where
  "normalise_key key =
     (case strip_trailing key of
        Inl e \<Rightarrow> Inl e
      | Inr k \<Rightarrow> Inr (rename_colour (hyphenate k)))"

text \<open>The loop \<open>for key, value in attributes.items()\<close>: \<open>keys\<close> are the keys of
  \<open>attributes\<close>, the third argument is \<open>new_attributes\<close>.\<close>

fun transform_items ::
  "string list \<Rightarrow> (string \<times> pyval) list \<Rightarrow> string dict \<Rightarrow> error + string dict" where
  "transform_items keys [] new_attributes = Inr new_attributes"
| "transform_items keys ((key, v) # rest) new_attributes =
     (if skipped keys key then transform_items keys rest new_attributes
      else case encode_value v of
             Inl e \<Rightarrow> Inl e
           | Inr s \<Rightarrow>
               (case normalise_key key of
                  Inl e \<Rightarrow> Inl e
                | Inr k \<Rightarrow> transform_items keys rest (AList.update k s new_attributes)))"

text \<open>\<open>transform\<close> returns the caller's dictionary as the call leaves it, and the
  dictionary it returns or the exception it raises.\<close>

definition transform :: "pyval dict \<Rightarrow> pyval dict \<times> (error + string dict)" where
  "transform attributes =
     (case pop_classes attributes of
        (attributes, Some e) \<Rightarrow> (attributes, Inl e)
      | (attributes, None) \<Rightarrow>
          (case pop_style attributes of
             (attributes, Some e) \<Rightarrow> (attributes, Inl e)
           | (attributes, None) \<Rightarrow>
               (attributes, transform_items (map fst attributes) attributes [])))"

section \<open>Element shapes\<close>

datatype element =
    TextElement string
  | Container string "string dict" "element list"
  | Void string "string dict"
  | ElementGroup "element list"
  | Component element

text \<open>An item of a content list: an element or a bare string.\<close>

datatype item = IElem element | IStr string

subsection \<open>Serialisation\<close>

text \<open>\<open>str.splitlines(True)\<close>: the line boundaries among the code points below 256;
  the first argument is the line read so far.\<close>

definition is_linebreak :: "char \<Rightarrow> bool" where
  "is_linebreak c \<longleftrightarrow>
     c \<in> {newline, CHR 0x0D, CHR 0x0B, CHR 0x0C, CHR 0x1C, CHR 0x1D, CHR 0x1E, CHR 0x85}"

fun splitlines :: "string \<Rightarrow> string \<Rightarrow> string list" where
  "splitlines cur [] = (if cur = [] then [] else [cur])"
| "splitlines cur (c # cs) =
     (if c = CHR 0x0D \<and> cs \<noteq> [] \<and> hd cs = newline
        then (cur @ [c, newline]) # splitlines [] (tl cs)
      else if is_linebreak c then (cur @ [c]) # splitlines [] cs
      else splitlines (cur @ [c]) cs)"

text \<open>\<open>textwrap.indent(text, prefix, predicate)\<close>\<close>

definition indent :: "string \<Rightarrow> string \<Rightarrow> (string \<Rightarrow> bool) \<Rightarrow> string" where
  "indent text pfx predicate =
     concat (map (\<lambda>line. if predicate line then pfx @ line else line) (splitlines [] text))"

text \<open>The text between \<open><\<close> and the end of the start tag, the same expression in
  \<open>Container.serialise\<close> and \<open>Void.serialise\<close>.\<close>

definition tag_attributes :: "string \<Rightarrow> string dict \<Rightarrow> string" where
  "tag_attributes tag attributes =
     tag @ (if attributes \<noteq> []
            then '' '' @ join '' '' (map (\<lambda>(k, v). k @ ''='' @ v) attributes)
            else [])"

fun serialise :: "element \<Rightarrow> bool \<Rightarrow> string" where
  "serialise (TextElement content) minify = content"
| "serialise (Container tag attributes content) minify =
     ''<'' @ tag_attributes tag attributes @ ''>''
     @ (if minify then [] else [newline])
     @ indent (join (if minify then [] else [newline])
                 (map (\<lambda>child. serialise child minify) content))
         ''    '' (\<lambda>_. \<not> minify)
     @ (if minify then [] else [newline])
     @ ''</'' @ tag @ ''>''"
| "serialise (Void tag attributes) minify = ''<'' @ tag_attributes tag attributes @ '' />''"
| "serialise (ElementGroup content) minify =
     join (if minify then [] else [newline]) (map (\<lambda>child. serialise child minify) content)"
| "serialise (Component content) minify = serialise content minify"

text \<open>
  A call \<open>e.serialise()\<close> or \<open>e.serialise(minify=m)\<close>: the argument is \<open>None\<close> when the
  caller gives none. \<open>serialise_default\<close> is the default value that the method of the
  element's class declares for \<open>minify\<close>, if it declares one; a call that omits an argument
  without default raises.
\<close>

fun serialise_default :: "element \<Rightarrow> bool option" where
  "serialise_default (TextElement _) = Some True"
| "serialise_default (Container _ _ _) = Some True"
| "serialise_default (Void _ _) = Some True"
| "serialise_default (ElementGroup _) = None"
| "serialise_default (Component _) = Some True"

definition serialise_call :: "element \<Rightarrow> bool option \<Rightarrow> error + string" where
  "serialise_call e arg =
     (case arg of
        Some minify \<Rightarrow> Inr (serialise e minify)
      | None \<Rightarrow>
          (case serialise_default e of
             Some minify \<Rightarrow> Inr (serialise e minify)
           | None \<Rightarrow>
               Inl (TypeError ''serialise() missing 1 required positional argument: minify'')))"

text \<open>\<open>Element.__str__\<close>, inherited by every shape: \<open>self.serialise(minify=False)\<close>.\<close>

definition str_element :: "element \<Rightarrow> error + string" where
  "str_element e = serialise_call e (Some False)"

subsection \<open>Construction and content reset\<close>

text \<open>
  \<open>TextElement.set_content\<close>: the first argument is the \<open>content\<close> slot before the call,
  \<open>None\<close> while it is unset (during construction); the result is the new value of the
  slot. The first test reads \<open>content[0]\<close>, which raises on the empty list; the message of
  its \<open>TypeError\<close> reads \<open>self.content\<close>, which raises while the slot is unset, and
  names the type of the slot's string otherwise.
\<close>

definition TextElement_set_content :: "string option \<Rightarrow> item list \<Rightarrow> error + string" where
  "TextElement_set_content slot content =
     (case content of
        [] \<Rightarrow> Inl IndexError
      | IElem _ # _ \<Rightarrow>
          (case slot of
             None \<Rightarrow> Inl AttributeError
           | Some _ \<Rightarrow>
               Inl (TypeError (''Text content must be a single string (got ''
                               @ [CHR 0x27] @ ''str'' @ [CHR 0x27] @ '')'')))
      | IStr s # _ \<Rightarrow>
          if length content \<noteq> 1
          then Inl (TypeError (''Text content must be a single string (got ''
                                @ dec_nat (length content) @ '' items)''))
          else Inr s)"

definition TextElement_init :: "item list \<Rightarrow> pyval dict \<Rightarrow> error + element" where
  "TextElement_init content attributes =
     (if attributes \<noteq> [] then Inl (TypeError ''Text content cannot have attributes'')
      else case TextElement_set_content None content of
             Inl e \<Rightarrow> Inl e
           | Inr s \<Rightarrow> Inr (TextElement s))"

text \<open>\<open>e(*content)\<close> on a text element: \<open>__call__\<close> resets the content.\<close>

definition TextElement_call :: "string \<Rightarrow> item list \<Rightarrow> error + element" where
  "TextElement_call old content =
     (case TextElement_set_content (Some old) content of
        Inl e \<Rightarrow> Inl e
      | Inr s \<Rightarrow> Inr (TextElement s))"

text \<open>The coercion of \<open>Container.set_content\<close> and \<open>ElementGroup.set_content\<close>.\<close>

definition coerce_content :: "item list \<Rightarrow> element list" where
  "coerce_content content =
     map (\<lambda>child. case child of IElem e \<Rightarrow> e | IStr s \<Rightarrow> TextElement s) content"

definition Container_init :: "string \<Rightarrow> item list \<Rightarrow> pyval dict \<Rightarrow> error + element" where
  "Container_init tag content attributes =
     (case snd (transform attributes) of
        Inl e \<Rightarrow> Inl e
      | Inr attrs \<Rightarrow> Inr (Container tag attrs (coerce_content content)))"

definition Void_init :: "string \<Rightarrow> item list \<Rightarrow> pyval dict \<Rightarrow> error + element" where
  "Void_init tag content attributes =
     (case snd (transform attributes) of
        Inl e \<Rightarrow> Inl e
      | Inr attrs \<Rightarrow>
          if content \<noteq> [] then Inl (TypeError ''Void elements cannot have content'')
          else Inr (Void tag attrs))"

definition ElementGroup_init :: "item list \<Rightarrow> pyval dict \<Rightarrow> error + element" where
  "ElementGroup_init content attributes =
     (if attributes \<noteq> [] then Inl (TypeError ''Element groups cannot have attributes'')
      else Inr (ElementGroup (coerce_content content)))"

section \<open>The underscore rules as the specification words them\<close>

text \<open>
  One pass over the key: a pair of underscores becomes one literal underscore, a remaining
  single underscore becomes a hyphen, every other character is kept. The pairs are taken
  from the left, as \<open>replace\<close> finds them.
\<close>

fun underscores :: "string \<Rightarrow> string" where
  "underscores [] = []"
| "underscores [c] = [if c = CHR ''_'' then CHR ''-'' else c]"
| "underscores (c # d # r) =
     (if c = CHR ''_'' \<and> d = CHR ''_'' then CHR ''_'' # underscores r
      else (if c = CHR ''_'' then CHR ''-'' else c) # underscores (d # r))"

section \<open>Properties\<close>

subsection \<open>Evaluation and the input mapping\<close>


lemmas key_unfold =
  skipped_def unnormalised_colour_def normalise_key_def strip_trailing_def hyphenate_def
  rename_colour_def

lemmas transform_unfold =
  transform_def pop_classes_def pop_style_def skipped_def unnormalised_colour_def
  encode_value_def normalise_key_def strip_trailing_def hyphenate_def rename_colour_def
  json_str_def json_escape_char_def

text \<open>
  Claim C1, as stated (the input mapping is left unchanged), fails: after the call on a
  mapping with the single entry \<open>classes = {"a"}\<close> the caller's mapping has lost
  \<open>classes\<close> and gained \<open>class\<close>.
\<close>

theorem transform_mutates_input_counterexample:
  "fst (transform [(''classes'', PSet [''a''])]) = [(''class'', PStr ''a'')]"
  by (simp add: transform_unfold)

lemma pop_classes_frame:
  "k \<noteq> ''classes'' \<Longrightarrow> k \<noteq> ''class'' \<Longrightarrow> map_of (fst (pop_classes a)) k = map_of a k"
  by (simp add: pop_classes_def Let_def AList.update_conv' split: pyval.splits option.splits)

lemma pop_classes_no_classes: "''classes'' \<notin> fst ` set (fst (pop_classes a))"
  by (auto simp: pop_classes_def Let_def AList.dom_update AList.delete_notin_dom split: pyval.splits option.splits)

lemma pop_style_frame:
  "k \<noteq> ''style'' \<Longrightarrow> map_of (fst (pop_style a)) k = map_of a k"
  by (simp add: pop_style_def Let_def AList.update_conv' split: pyval.splits option.splits sum.splits)

lemma pop_style_keys: "fst ` set (fst (pop_style a)) \<subseteq> insert ''style'' (fst ` set a)"
  using AList.dom_delete_subset[of "''style''" a]
  by (auto simp: pop_style_def Let_def AList.dom_update split: pyval.splits option.splits sum.splits)

lemma fst_transform:
  "fst (transform a) =
     (case snd (pop_classes a) of Some e \<Rightarrow> fst (pop_classes a)
      | None \<Rightarrow> fst (pop_style (fst (pop_classes a))))"
  by (simp add: transform_def split: prod.splits option.splits)

lemma pop_classes_class:
  "map_of (fst (pop_classes a)) ''class'' =
     (case map_of a ''classes'' of
        Some (PSet cs) \<Rightarrow>
          if cs = [] then map_of a ''class''
          else Some (PStr (join '' '' (filter (\<lambda>c. c \<noteq> []) cs)))
      | _ \<Rightarrow> map_of a ''class'')"
  by (simp add: pop_classes_def Let_def AList.update_conv' AList.delete_conv'
      split: pyval.splits option.splits)

lemma pop_classes_raises:
  "snd (pop_classes a) = None \<longleftrightarrow>
     (case map_of a ''classes'' of
        None \<Rightarrow> True
      | Some (PSet cs) \<Rightarrow> True
      | Some c \<Rightarrow> \<not> truthy c)"
  by (simp add: pop_classes_def Let_def split: pyval.splits option.splits)

lemma pop_style_style:
  "map_of (fst (pop_style a)) ''style'' =
     (case map_of a ''style'' of
        None \<Rightarrow> None
      | Some s \<Rightarrow>
          if truthy s then
            (case s of
               PDict kvs \<Rightarrow>
                 (case style_items kvs of
                    Inl e \<Rightarrow> None
                  | Inr ss \<Rightarrow> Some (PStr (join '';'' ss)))
             | _ \<Rightarrow> Some s)
          else None)"
  by (simp add: pop_style_def Let_def AList.update_conv' AList.delete_conv'
      split: pyval.splits option.splits sum.splits)

lemma transform_result:
  assumes "snd (transform a) = Inr out"
  shows "transform_items (map fst (fst (transform a))) (fst (transform a)) [] = Inr out"
  using assms by (simp add: transform_def split: prod.splits option.splits)

text \<open>
  Claim C1, amended: \<open>transform\<close> changes the caller's mapping by the class and style
  normalisation only, and returns a mapping of its own. After the call, whether it returns
  or raises: the mapping has no \<open>classes\<close> entry; every key other than \<open>classes\<close>,
  \<open>class\<close> and \<open>style\<close> is bound as before; \<open>class\<close> is bound to the space-join of
  the names other than the empty string when \<open>classes\<close> was a non-empty set, and is
  bound as before otherwise. When the class normalisation raised (the value of \<open>classes\<close>
  was true and not a set) \<open>style\<close> is bound as before; otherwise \<open>style\<close> is unbound
  when it was unbound, false, or a mapping whose join raises (it has been popped and is
  not inserted again), bound to the join with \<open>;\<close> of the pairs \<open>property:value\<close> when it
  was a non-empty mapping of strings, and bound to the same value when it was any other
  true value. When the call returns, the mapping returned is the one that the loop builds
  from the empty mapping over the caller's mapping as normalised.
\<close>

theorem transform_input_frame:
  "''classes'' \<notin> fst ` set (fst (transform a)) \<and>
   (\<forall>k. k \<notin> {''classes'', ''class'', ''style''} \<longrightarrow>
        map_of (fst (transform a)) k = map_of a k) \<and>
   map_of (fst (transform a)) ''class'' =
     (case map_of a ''classes'' of
        Some (PSet cs) \<Rightarrow>
          if cs = [] then map_of a ''class''
          else Some (PStr (join '' '' (filter (\<lambda>c. c \<noteq> []) cs)))
      | _ \<Rightarrow> map_of a ''class'') \<and>
   map_of (fst (transform a)) ''style'' =
     (if (case map_of a ''classes'' of
            None \<Rightarrow> True
          | Some (PSet cs) \<Rightarrow> True
          | Some c \<Rightarrow> \<not> truthy c)
      then
        (case map_of a ''style'' of
           None \<Rightarrow> None
         | Some s \<Rightarrow>
             if truthy s then
               (case s of
                  PDict kvs \<Rightarrow>
                    (case style_items kvs of
                       Inl e \<Rightarrow> None
                     | Inr ss \<Rightarrow> Some (PStr (join '';'' ss)))
                | _ \<Rightarrow> Some s)
             else None)
      else map_of a ''style'') \<and>
   (snd (transform a) = Inr out \<longrightarrow>
      transform_items (map fst (fst (transform a))) (fst (transform a)) [] = Inr out)"
proof -
  have "''classes'' \<notin> fst ` set (fst (pop_style (fst (pop_classes a))))"
    using pop_style_keys[of "fst (pop_classes a)"] pop_classes_no_classes[of a] by auto
  then have 1: "''classes'' \<notin> fst ` set (fst (transform a))"
    using pop_classes_no_classes[of a] by (simp add: fst_transform split: option.splits)
  have 2: "map_of (fst (transform a)) k = map_of a k"
    if "k \<notin> {''classes'', ''class'', ''style''}" for k
    using that by (simp add: fst_transform pop_classes_frame pop_style_frame split: option.splits)
  have "map_of (fst (transform a)) ''class'' = map_of (fst (pop_classes a)) ''class''"
    by (simp add: fst_transform pop_style_frame split: option.splits)
  then have 3: "map_of (fst (transform a)) ''class'' =
     (case map_of a ''classes'' of
        Some (PSet cs) \<Rightarrow>
          if cs = [] then map_of a ''class''
          else Some (PStr (join '' '' (filter (\<lambda>c. c \<noteq> []) cs)))
      | _ \<Rightarrow> map_of a ''class'')"
    unfolding pop_classes_class .
  have s: "map_of (fst (pop_classes a)) ''style'' = map_of a ''style''"
    by (simp add: pop_classes_frame)
  have 4: "map_of (fst (transform a)) ''style'' =
     (if snd (pop_classes a) = None
      then
        (case map_of a ''style'' of
           None \<Rightarrow> None
         | Some s \<Rightarrow>
             if truthy s then
               (case s of
                  PDict kvs \<Rightarrow>
                    (case style_items kvs of
                       Inl e \<Rightarrow> None
                     | Inr ss \<Rightarrow> Some (PStr (join '';'' ss)))
                | _ \<Rightarrow> Some s)
             else None)
      else map_of a ''style'')"
  proof (cases "snd (pop_classes a)")
    case None
    then have "fst (transform a) = fst (pop_style (fst (pop_classes a)))"
      by (simp add: fst_transform)
    then show ?thesis using None by (simp only: pop_style_style s if_True refl simp_thms)
  next
    case (Some e)
    then have "fst (transform a) = fst (pop_classes a)" by (simp add: fst_transform)
    then show ?thesis using Some by (simp add: s)
  qed
  have 5: "transform_items (map fst (fst (transform a))) (fst (transform a)) [] = Inr out"
    if "snd (transform a) = Inr out"
    using that by (rule transform_result)
  show ?thesis
  proof (intro conjI allI impI)
    show "''classes'' \<notin> fst ` set (fst (transform a))" by (rule 1)
  next
    fix k :: string assume "k \<notin> {''classes'', ''class'', ''style''}"
    then show "map_of (fst (transform a)) k = map_of a k" by (rule 2)
  next
    show "map_of (fst (transform a)) ''class'' =
     (case map_of a ''classes'' of
        Some (PSet cs) \<Rightarrow>
          if cs = [] then map_of a ''class''
          else Some (PStr (join '' '' (filter (\<lambda>c. c \<noteq> []) cs)))
      | _ \<Rightarrow> map_of a ''class'')" by (rule 3)
  next
    show "map_of (fst (transform a)) ''style'' =
     (if (case map_of a ''classes'' of
            None \<Rightarrow> True
          | Some (PSet cs) \<Rightarrow> True
          | Some c \<Rightarrow> \<not> truthy c)
      then
        (case map_of a ''style'' of
           None \<Rightarrow> None
         | Some s \<Rightarrow>
             if truthy s then
               (case s of
                  PDict kvs \<Rightarrow>
                    (case style_items kvs of
                       Inl e \<Rightarrow> None
                     | Inr ss \<Rightarrow> Some (PStr (join '';'' ss)))
                | _ \<Rightarrow> Some s)
             else None)
      else map_of a ''style'')"
      using 4 unfolding pop_classes_raises .
  next
    assume "snd (transform a) = Inr out"
    then show "transform_items (map fst (fst (transform a))) (fst (transform a)) [] = Inr out"
      by (rule 5)
  qed
qed

text \<open>The normalisation at a mapping with an \<open>id\<close>, the classes \<open>a\<close> and the empty
  string, and a style mapping; at a mapping whose \<open>classes\<close> value is the number 1; and at
  a mapping whose style mapping binds a property to a number.\<close>

theorem transform_input_frame_witness:
  "map_of (fst (transform [(''id'', PStr ''x''), (''classes'', PSet [''a'', '''']),
                           (''style'', PDict [(''width'', PStr ''5px'')])])) ''id''
     = Some (PStr ''x'') \<and>
   map_of (fst (transform [(''id'', PStr ''x''), (''classes'', PSet [''a'', '''']),
                           (''style'', PDict [(''width'', PStr ''5px'')])])) ''class''
     = Some (PStr ''a'') \<and>
   map_of (fst (transform [(''id'', PStr ''x''), (''classes'', PSet [''a'', '''']),
                           (''style'', PDict [(''width'', PStr ''5px'')])])) ''style''
     = Some (PStr ''width:5px'') \<and>
   transform_items
       (map fst (fst (transform [(''id'', PStr ''x''), (''classes'', PSet [''a'', '''']),
                                 (''style'', PDict [(''width'', PStr ''5px'')])])))
       (fst (transform [(''id'', PStr ''x''), (''classes'', PSet [''a'', '''']),
                        (''style'', PDict [(''width'', PStr ''5px'')])])) []
     = Inr [(''id'', [dquote] @ ''x'' @ [dquote]), (''class'', [dquote] @ ''a'' @ [dquote]),
            (''style'', [dquote] @ ''width:5px'' @ [dquote])] \<and>
   map_of (fst (transform [(''classes'', PInt 1), (''class'', PStr ''c''), (''style'', PStr [])]))
       ''class'' = Some (PStr ''c'') \<and>
   map_of (fst (transform [(''classes'', PInt 1), (''class'', PStr ''c''), (''style'', PStr [])]))
       ''style'' = Some (PStr []) \<and>
   map_of (fst (transform [(''id'', PStr ''x''), (''style'', PDict [(''width'', PInt 5)])]))
       ''style'' = None"
proof -
  let ?a = "[(''id'', PStr ''x''), (''classes'', PSet [''a'', '''']),
             (''style'', PDict [(''width'', PStr ''5px'')])]"
  let ?out = "[(''id'', [dquote] @ ''x'' @ [dquote]), (''class'', [dquote] @ ''a'' @ [dquote]),
               (''style'', [dquote] @ ''width:5px'' @ [dquote])]"
  let ?b = "[(''classes'', PInt 1), (''class'', PStr ''c''), (''style'', PStr [])]"
  let ?c = "[(''id'', PStr ''x''), (''style'', PDict [(''width'', PInt 5)])]"
  have k: "''id'' \<notin> {''classes'', ''class'', ''style''}" by simp
  have ok: "snd (transform ?a) = Inr ?out" by (simp add: transform_unfold)
  note ta = transform_input_frame[of ?a ?out]
  note tb = transform_input_frame[of ?b ?out]
  note tc = transform_input_frame[of ?c ?out]
  have "map_of (fst (transform ?a)) ''id'' = map_of ?a ''id''"
    by (rule ta[THEN conjunct2, THEN conjunct1, rule_format, OF k])
  then have r1: "map_of (fst (transform ?a)) ''id'' = Some (PStr ''x'')" by simp
  have r2: "map_of (fst (transform ?a)) ''class'' = Some (PStr ''a'')"
    using ta[THEN conjunct2, THEN conjunct2, THEN conjunct1] by simp
  have r3: "map_of (fst (transform ?a)) ''style'' = Some (PStr ''width:5px'')"
    using ta[THEN conjunct2, THEN conjunct2, THEN conjunct2, THEN conjunct1] by simp
  have r4: "transform_items (map fst (fst (transform ?a))) (fst (transform ?a)) [] = Inr ?out"
    by (rule ta[THEN conjunct2, THEN conjunct2, THEN conjunct2, THEN conjunct2, rule_format, OF ok])
  have r5: "map_of (fst (transform ?b)) ''class'' = Some (PStr ''c'')"
    using tb[THEN conjunct2, THEN conjunct2, THEN conjunct1] by simp
  have r6: "map_of (fst (transform ?b)) ''style'' = Some (PStr [])"
    using tb[THEN conjunct2, THEN conjunct2, THEN conjunct2, THEN conjunct1] by simp
  have r7: "map_of (fst (transform ?c)) ''style'' = None"
    using tc[THEN conjunct2, THEN conjunct2, THEN conjunct2, THEN conjunct1] by simp
  show ?thesis
    by (intro conjI r1 r2 r3 r4 r5 r6 r7)
qed

text \<open>
  Claim C2, as stated, fails: constructing the void element \<open>img\<close> with the attribute
  \<open>src = "a.png"\<close> succeeds, and its serialisation is not the text with the
  \<open>&quot;\<close> entities, since the value holds no double quote to escape.
\<close>

theorem void_img_counterexample:
  "Void_init ''img'' [] [(''src'', PStr ''a.png'')]
     = Inr (Void ''img'' [(''src'', [dquote] @ ''a.png'' @ [dquote])]) \<and>
   serialise (Void ''img'' [(''src'', [dquote] @ ''a.png'' @ [dquote])]) True
     \<noteq> ''<img src='' @ [dquote] @ ''&quot;a.png&quot;'' @ [dquote] @ '' />''"
  by (simp add: Void_init_def transform_unfold tag_attributes_def)

text \<open>
  Claim C2, amended: the void element \<open>img\<close> with the attribute \<open>src = "a.png"\<close>
  serialises to \<open><img src="a.png" />\<close>, in minified and in pretty mode.
\<close>

theorem void_img_serialise:
  "Void_init ''img'' [] [(''src'', PStr ''a.png'')]
     = Inr (Void ''img'' [(''src'', [dquote] @ ''a.png'' @ [dquote])]) \<and>
   serialise (Void ''img'' [(''src'', [dquote] @ ''a.png'' @ [dquote])]) True
     = ''<img src='' @ [dquote] @ ''a.png'' @ [dquote] @ '' />'' \<and>
   serialise (Void ''img'' [(''src'', [dquote] @ ''a.png'' @ [dquote])]) False
     = ''<img src='' @ [dquote] @ ''a.png'' @ [dquote] @ '' />''"
  by (simp add: Void_init_def transform_unfold tag_attributes_def)

text \<open>
  Claim C3 (a call of \<open>serialise\<close> without argument succeeds on every shape and gives the
  minified output): on an element group the call raises, because
  \<open>ElementGroup.serialise\<close> declares no default for \<open>minify\<close>; with the argument given
  it returns the minified text.
\<close>

theorem group_serialise_without_argument:
  "serialise_call (ElementGroup [TextElement ''a'']) None
     = Inl (TypeError ''serialise() missing 1 required positional argument: minify'') \<and>
   serialise_call (ElementGroup [TextElement ''a'']) (Some True) = Inr ''a''"
  by (simp add: serialise_call_def)

text \<open>
  Claim C5 (a text element fails with the content-arity \<open>TypeError\<close> on empty content, on
  several items and on a single item that is not a string): construction with empty
  content raises \<open>IndexError\<close>, construction with an element as the single item raises
  \<open>AttributeError\<close>; two strings raise the content-arity \<open>TypeError\<close>.
\<close>

theorem text_empty_content_error:
  "TextElement_init [] [] = Inl IndexError \<and>
   TextElement_init [IElem (TextElement ''x'')] [] = Inl AttributeError \<and>
   TextElement_init [IStr ''a'', IStr ''b''] []
     = Inl (TypeError ''Text content must be a single string (got 2 items)'')"
  by (simp add: TextElement_init_def TextElement_set_content_def hexdigit_def)

text \<open>
  Claim C10 (the string conversion returns the pretty serialisation, whereas \<open>serialise\<close>
  called directly defaults to minified): for every element the string conversion succeeds
  and returns \<open>serialise(minify=False)\<close>, and a call of \<open>serialise\<close> without argument
  returns the minified text on a text element, a container, a void element and a
  component; on an element group the call without argument raises, because
  \<open>ElementGroup.serialise\<close> declares no default for \<open>minify\<close>. On the group of the
  paragraph \<open>a\<close> and the text \<open>b\<close> the string conversion is the text of four lines, the
  paragraph's content indented by four spaces, and the minified text has no newline.
\<close>

theorem str_pretty_serialise_default:
  "str_element e = Inr (serialise e False) \<and>
   serialise_call (TextElement s) None = Inr (serialise (TextElement s) True) \<and>
   serialise_call (Container tag attributes content) None
     = Inr (serialise (Container tag attributes content) True) \<and>
   serialise_call (Void tag attributes) None = Inr (serialise (Void tag attributes) True) \<and>
   serialise_call (Component c) None = Inr (serialise (Component c) True) \<and>
   serialise_call (ElementGroup content) None
     = Inl (TypeError ''serialise() missing 1 required positional argument: minify'') \<and>
   str_element (ElementGroup [Container ''p'' [] [TextElement ''a''], TextElement ''b''])
     = Inr (''<p>'' @ [newline] @ ''    a'' @ [newline] @ ''</p>'' @ [newline] @ ''b'') \<and>
   serialise_call (ElementGroup [Container ''p'' [] [TextElement ''a''], TextElement ''b''])
       (Some True)
     = Inr ''<p>a</p>b''"
  by (simp add: str_element_def serialise_call_def indent_def tag_attributes_def
      is_linebreak_def)

subsection \<open>The underscore stage of the key\<close>

lemma str_replace_char:
  "str_replace [a] [b] s = map (\<lambda>c. if c = a then b else c) s"
  by (induction s) auto

lemma hyphenate_underscores:
  "hyphenate key = map (\<lambda>c. if c = CHR '' '' then CHR ''_'' else c) (underscores key)"
  unfolding hyphenate_def str_replace_char
  by (induction key rule: underscores.induct) auto






subsection \<open>Newlines and indentation of a container\<close>

lemma concat_splitlines: "concat (splitlines cur s) = cur @ s"
proof (induction cur s rule: splitlines.induct)
  case (1 cur)
  then show ?case by simp
next
  case (2 cur c cs)
  then show ?case by (cases cs) auto
qed

lemma indent_minify: "indent text pfx (\<lambda>_. False) = text"
  by (simp add: indent_def concat_splitlines)

lemma splitlines_plain:
  "\<forall>c\<in>set s. \<not> is_linebreak c \<Longrightarrow> splitlines cur (s @ rest) = splitlines (cur @ s) rest"
proof (induction s arbitrary: cur)
  case Nil
  then show ?case by simp
next
  case (Cons a s)
  then have "a \<noteq> CHR 0x0D" by (auto simp: is_linebreak_def)
  with Cons show ?case by simp
qed

lemma splitlines_newline:
  "splitlines cur (newline # rest) = (cur @ [newline]) # splitlines [] rest"
  by (simp add: is_linebreak_def)

lemma indent_join:
  "ss \<noteq> [] \<Longrightarrow> \<forall>s\<in>set ss. \<forall>c\<in>set s. \<not> is_linebreak c \<Longrightarrow> last ss \<noteq> [] \<Longrightarrow>
   indent (join [newline] ss) pfx (\<lambda>_. True) = join [newline] (map (\<lambda>s. pfx @ s) ss)"
proof (induction "[newline]" ss rule: join.induct)
  case 1
  then show ?case by simp
next
  case (2 x)
  then have "splitlines [] x = [x]"
    using splitlines_plain[of x "[]" "[]"] by simp
  then show ?case by (simp add: indent_def)
next
  case (3 x y ys)
  have "splitlines [] (x @ newline # join [newline] (y # ys))
          = (x @ [newline]) # splitlines [] (join [newline] (y # ys))"
    using "3.prems" splitlines_plain[of x "[]" "newline # join [newline] (y # ys)"]
    by (simp add: splitlines_newline del: splitlines.simps)
  moreover have "indent (join [newline] (y # ys)) pfx (\<lambda>_. True)
                   = join [newline] (map (\<lambda>s. pfx @ s) (y # ys))"
    using 3 by simp
  ultimately show ?case by (simp add: indent_def)
qed

lemma count_indent:
  "c \<notin> set pfx \<Longrightarrow> count_list (indent text pfx p) c = count_list text c"
proof -
  assume c: "c \<notin> set pfx"
  have "count_list (concat (map (\<lambda>line. if p line then pfx @ line else line) ls)) c
          = count_list (concat ls) c" for ls
    using c by (induction ls) auto
  then show ?thesis
    by (simp add: indent_def concat_splitlines)
qed

lemma count_join_newline:
  "\<forall>s\<in>set ss. newline \<notin> set s \<Longrightarrow> count_list (join [newline] ss) newline = length ss - 1"
  by (induction "[newline]" ss rule: join.induct) auto

lemma set_join_empty: "set (join [] ss) = \<Union> (set ` set ss)"
  by (induction "[] :: string" ss rule: join.induct) auto

text \<open>
  Claim C9, as stated (the pretty serialisation of a container with \<open>n\<close> children has
  exactly \<open>n + 1\<close> newlines), fails for \<open>n = 0\<close>: the container without children
  serialises with two newlines, one after the start tag and one before the end tag.
\<close>

theorem container_newlines_counterexample:
  "count_list (serialise (Container ''div'' [] []) False) newline = 2 \<and>
   length ([] :: element list) + 1 = 1"
  by (simp add: indent_def tag_attributes_def)

text \<open>
  Claim C9, amended: for a container with at least one child whose start tag holds no
  newline, the minified serialisation holds no newline when the minified serialisations of
  the children hold none; the pretty serialisation holds exactly \<open>n + 1\<close> newlines when
  the pretty serialisations of the \<open>n\<close> children hold none; and when these hold no line
  boundary at all and the last one is not empty, the pretty serialisation is the start tag,
  a newline, the children's lines each behind four spaces and joined by newlines, a
  newline, and the end tag.
\<close>

theorem container_newlines:
  assumes "content \<noteq> []" and "newline \<notin> set (tag_attributes tag attributes)"
  shows "((\<forall>child\<in>set content. newline \<notin> set (serialise child True)) \<longrightarrow>
            newline \<notin> set (serialise (Container tag attributes content) True)) \<and>
         ((\<forall>child\<in>set content. newline \<notin> set (serialise child False)) \<longrightarrow>
            count_list (serialise (Container tag attributes content) False) newline
              = length content + 1) \<and>
         ((\<forall>child\<in>set content. \<forall>c\<in>set (serialise child False). \<not> is_linebreak c) \<and>
          serialise (last content) False \<noteq> [] \<longrightarrow>
            serialise (Container tag attributes content) False
              = ''<'' @ tag_attributes tag attributes @ ''>'' @ [newline]
                @ join [newline] (map (\<lambda>child. ''    '' @ serialise child False) content)
                @ [newline] @ ''</'' @ tag @ ''>'')"
proof -
  have tag: "newline \<notin> set tag"
    using assms(2) by (simp add: tag_attributes_def)
  have a: "newline \<notin> set (serialise (Container tag attributes content) True)"
    if "\<forall>child\<in>set content. newline \<notin> set (serialise child True)"
    using that assms(2) tag by (auto simp: indent_minify set_join_empty)
  have b: "count_list (serialise (Container tag attributes content) False) newline
             = length content + 1"
    if "\<forall>child\<in>set content. newline \<notin> set (serialise child False)"
  proof -
    have "count_list (join [newline] (map (\<lambda>child. serialise child False) content)) newline
            = length content - 1"
      using that count_join_newline[of "map (\<lambda>child. serialise child False) content"] by simp
    moreover have "count_list (tag_attributes tag attributes) newline = 0"
      "count_list tag newline = 0"
      using assms(2) tag by simp_all
    ultimately show ?thesis
      using assms(1) by (simp add: count_indent)
  qed
  have c: "serialise (Container tag attributes content) False
             = ''<'' @ tag_attributes tag attributes @ ''>'' @ [newline]
               @ join [newline] (map (\<lambda>child. ''    '' @ serialise child False) content)
               @ [newline] @ ''</'' @ tag @ ''>''"
    if "\<forall>child\<in>set content. \<forall>c\<in>set (serialise child False). \<not> is_linebreak c"
      and "serialise (last content) False \<noteq> []"
  proof -
    have "indent (join [newline] (map (\<lambda>child. serialise child False) content)) ''    '' (\<lambda>_. True)
            = join [newline] (map (\<lambda>s. ''    '' @ s) (map (\<lambda>child. serialise child False) content))"
      using that assms(1) by (intro indent_join) (auto simp: last_map)
    then show ?thesis by (simp add: comp_def)
  qed
  from a b c show ?thesis by blast
qed

text \<open>The three parts at the container \<open>div\<close> with the text children \<open>a\<close> and \<open>b\<close>,
  whose serialisations hold no line boundary.\<close>

theorem container_newlines_witness:
  "[TextElement ''a'', TextElement ''b''] \<noteq> [] \<and>
   newline \<notin> set (tag_attributes ''div'' []) \<and>
   serialise (last [TextElement ''a'', TextElement ''b'']) False \<noteq> [] \<and>
   newline \<notin> set (serialise (Container ''div'' [] [TextElement ''a'', TextElement ''b'']) True) \<and>
   count_list (serialise (Container ''div'' [] [TextElement ''a'', TextElement ''b'']) False) newline = 3 \<and>
   serialise (Container ''div'' [] [TextElement ''a'', TextElement ''b'']) False
     = ''<div>'' @ [newline] @ ''    a'' @ [newline] @ ''    b'' @ [newline] @ ''</div>''"
proof -
  have h1: "[TextElement ''a'', TextElement ''b''] \<noteq> []" by simp
  have h2: "newline \<notin> set (tag_attributes ''div'' [])" by (simp add: tag_attributes_def)
  have h3: "\<forall>child\<in>set [TextElement ''a'', TextElement ''b'']. newline \<notin> set (serialise child True)"
    by simp
  have h4: "\<forall>child\<in>set [TextElement ''a'', TextElement ''b'']. newline \<notin> set (serialise child False)"
    by simp
  have h5: "\<forall>child\<in>set [TextElement ''a'', TextElement ''b''].
      \<forall>c\<in>set (serialise child False). \<not> is_linebreak c"
    by (simp add: is_linebreak_def)
  have h6: "serialise (last [TextElement ''a'', TextElement ''b'']) False \<noteq> []" by simp
  note t = container_newlines [OF h1 h2]
  from t h3 have r1: "newline \<notin> set (serialise (Container ''div'' [] [TextElement ''a'', TextElement ''b'']) True)"
    by blast
  from t h4 have "count_list (serialise (Container ''div'' [] [TextElement ''a'', TextElement ''b'']) False) newline
      = length [TextElement ''a'', TextElement ''b''] + 1"
    by blast
  then have r2: "count_list (serialise (Container ''div'' [] [TextElement ''a'', TextElement ''b'']) False) newline = 3"
    by simp
  from t h5 h6 have "serialise (Container ''div'' [] [TextElement ''a'', TextElement ''b'']) False
     = ''<'' @ tag_attributes ''div'' [] @ ''>'' @ [newline]
                @ join [newline] (map (\<lambda>child. ''    '' @ serialise child False) [TextElement ''a'', TextElement ''b''])
                @ [newline] @ ''</'' @ ''div'' @ ''>''"
    by blast
  then have r3: "serialise (Container ''div'' [] [TextElement ''a'', TextElement ''b'']) False
     = ''<div>'' @ [newline] @ ''    a'' @ [newline] @ ''    b'' @ [newline] @ ''</div>''"
    by (simp add: tag_attributes_def)
  from h1 h2 h6 r1 r2 r3 show ?thesis by blast
qed

subsection \<open>The colour spellings of a key\<close>

lemma colour_replace_step:
  "str_replace ''color'' ''colour'' (''colour'' @ r) = ''colour'' @ str_replace ''color'' ''colour'' r"
  by simp

lemma colour_replace_match:
  "prefix ''color'' s \<Longrightarrow>
   str_replace ''color'' ''colour'' s
     = ''colour'' @ str_replace ''color'' ''colour'' (drop (length ''color'') s)"
  by (cases s) simp_all

lemma colour_replace_nomatch:
  "\<not> prefix ''color'' (c # cs) \<Longrightarrow>
   str_replace ''color'' ''colour'' (c # cs) = c # str_replace ''color'' ''colour'' cs"
  by (simp del: prefix_code)


lemma str_replace_keeps:
  "old \<noteq> [] \<Longrightarrow> new \<noteq> [] \<Longrightarrow> hd new \<notin> set w \<Longrightarrow> str_replace old new x = w \<Longrightarrow> x = w"
proof (induction x arbitrary: w)
  case Nil
  then show ?case by simp
next
  case (Cons c cs)
  show ?case
  proof (cases "prefix old (c # cs)")
    case True
    with Cons.prems(1,4)
    have "w = new @ str_replace old new (drop (length old) (c # cs))"
      by (simp del: prefix_code)
    then have "hd new \<in> set w" using Cons.prems(2) by (cases new) simp_all
    with Cons.prems(3) show ?thesis by simp
  next
    case False
    with Cons.prems(1,4) have w: "w = c # str_replace old new cs"
      by (simp del: prefix_code)
    with Cons.prems(3) have "hd new \<notin> set (str_replace old new cs)" by simp
    from Cons.IH[OF Cons.prems(1,2) this refl] w show ?thesis by simp
  qed
qed


lemma colour_replace_keeps_c:
  assumes "str_replace ''color'' ''colour'' k = CHR ''c'' # w"
    and "CHR ''c'' \<notin> set w" and "\<not> prefix ''o'' w"
  shows "k = CHR ''c'' # w"
proof (cases k)
  case Nil
  with assms(1) show ?thesis by simp
next
  case (Cons c cs)
  show ?thesis
  proof (cases "prefix ''color'' k")
    case True
    from assms(1) have "CHR ''c'' # w
        = ''colour'' @ str_replace ''color'' ''colour'' (drop (length ''color'') k)"
      unfolding colour_replace_match[OF True] by (rule sym)
    then have "prefix ''o'' w" by simp
    with assms(3) show ?thesis by simp
  next
    case False
    then have nq: "\<not> prefix ''color'' (c # cs)" using Cons by simp
    from assms(1) have "c # str_replace ''color'' ''colour'' cs = CHR ''c'' # w"
      unfolding Cons colour_replace_nomatch[OF nq] .
    then have c: "c = CHR ''c''" and r: "str_replace ''color'' ''colour'' cs = w" by simp_all
    have "cs = w"
      by (rule str_replace_keeps[OF _ _ _ r]) (use assms(2) in simp_all)
    with c Cons show ?thesis by simp
  qed
qed

lemma colour_prefix_back:
  "CHR ''c'' \<notin> set w \<Longrightarrow> prefix w (str_replace ''color'' ''colour'' cs) \<Longrightarrow> prefix w cs"
proof (induction w arbitrary: cs)
  case Nil
  then show ?case by simp
next
  case (Cons a w)
  show ?case
  proof (cases cs)
    case Nil
    with Cons.prems(2) show ?thesis by simp
  next
    case (Cons x xs)
    note cs = this
    show ?thesis
    proof (cases "prefix ''color'' cs")
      case True
      from Cons.prems(2) have "prefix (a # w) (''colour''
            @ str_replace ''color'' ''colour'' (drop (length ''color'') cs))"
        unfolding colour_replace_match[OF True] .
      then have "a = CHR ''c''" by simp
      with Cons.prems(1) show ?thesis by simp
    next
      case False
      then have nq: "\<not> prefix ''color'' (x # xs)" using cs by simp
      from Cons.prems(2) have "prefix (a # w) (x # str_replace ''color'' ''colour'' xs)"
        unfolding cs colour_replace_nomatch[OF nq] .
      then have "a = x" and "prefix w (str_replace ''color'' ''colour'' xs)" by simp_all
      moreover from Cons.prems(1) have "CHR ''c'' \<notin> set w" by simp
      ultimately show ?thesis using Cons.IH[of xs] cs by simp
    qed
  qed
qed


lemma colour_replace_idem:
  "str_replace ''color'' ''colour'' (str_replace ''color'' ''colour'' s)
     = str_replace ''color'' ''colour'' s"
proof (induction "length s" arbitrary: s rule: less_induct)
  case less
  show ?case
  proof (cases s)
    case Nil
    then show ?thesis by simp
  next
    case (Cons c cs)
    show ?thesis
    proof (cases "prefix ''color'' s")
      case True
      then have "length (drop (length ''color'') s) < length s" using Cons by simp
      from less[OF this] show ?thesis
        unfolding colour_replace_match[OF True] colour_replace_step by (rule arg_cong)
    next
      case False
      have np: "\<not> prefix ''color'' (c # str_replace ''color'' ''colour'' cs)"
      proof
        assume p: "prefix ''color'' (c # str_replace ''color'' ''colour'' cs)"
        then have pq: "CHR ''c'' = c \<and> prefix ''olor'' (str_replace ''color'' ''colour'' cs)"
          unfolding Cons_prefix_Cons .
        note c = conjunct1[OF pq, symmetric] and q = conjunct2[OF pq]
        have "prefix ''olor'' cs" by (rule colour_prefix_back[OF _ q]) simp
        with c have "prefix ''color'' (c # cs)" by simp
        with False Cons show False by simp
      qed
      have nq: "\<not> prefix ''color'' (c # cs)" using False Cons by simp
      have "length cs < length s" using Cons by simp
      from less[OF this] show ?thesis
        unfolding Cons colour_replace_nomatch[OF nq] colour_replace_nomatch[OF np]
        by (rule arg_cong)
    qed
  qed
qed

lemma unnormalised_colour_idem:
  "unnormalised_colour (unnormalised_colour key) = unnormalised_colour key"
  by (simp add: unnormalised_colour_def colour_replace_idem)

subsection \<open>The loop over the items\<close>

lemma skipped_removeAll:
  assumes "unnormalised_colour k \<noteq> k" and "key \<noteq> k"
  shows "skipped (removeAll k ks) key = skipped ks key"
proof -
  have "unnormalised_colour key \<noteq> k"
  proof
    assume "unnormalised_colour key = k"
    then have "unnormalised_colour k = k" using unnormalised_colour_idem[of key] by simp
    with assms(1) show False by simp
  qed
  then show ?thesis by (auto simp: skipped_def)
qed

lemma transform_items_skip:
  "skipped ks k \<Longrightarrow> transform_items ks (AList.delete k xs) new = transform_items ks xs new"
proof (induction xs arbitrary: new)
  case Nil
  then show ?case by simp
next
  case (Cons p xs)
  obtain key v where p: "p = (key, v)" by (cases p)
  show ?case
  proof (cases "key = k")
    case True
    with Cons p show ?thesis by simp
  next
    case False
    with Cons p show ?thesis by (simp split: sum.splits)
  qed
qed

lemma transform_items_keys_cong:
  "(\<forall>key\<in>fst ` set xs. skipped ks key = skipped ks' key) \<Longrightarrow>
   transform_items ks xs new = transform_items ks' xs new"
proof (induction xs arbitrary: new)
  case Nil
  then show ?case by simp
next
  case (Cons p xs)
  obtain key v where p: "p = (key, v)" by (cases p)
  from Cons.prems have "skipped ks key = skipped ks' key"
    and "\<forall>key\<in>fst ` set xs. skipped ks key = skipped ks' key" using p by simp_all
  with Cons.IH p show ?case by (simp split: sum.splits)
qed

lemma transform_items_delete:
  assumes "skipped (map fst a) k"
  shows "transform_items (map fst (AList.delete k a)) (AList.delete k a) new
           = transform_items (map fst a) a new"
proof -
  from assms have u: "unnormalised_colour k \<noteq> k" by (auto simp: skipped_def)
  have "\<forall>key\<in>fst ` set (AList.delete k a).
          skipped (removeAll k (map fst a)) key = skipped (map fst a) key"
  proof
    fix key assume "key \<in> fst ` set (AList.delete k a)"
    then have "key \<noteq> k" using AList.delete_notin_dom[of k a] by auto
    with u show "skipped (removeAll k (map fst a)) key = skipped (map fst a) key"
      by (rule skipped_removeAll)
  qed
  then have "transform_items (removeAll k (map fst a)) (AList.delete k a) new
               = transform_items (map fst a) (AList.delete k a) new"
    by (rule transform_items_keys_cong)
  with transform_items_skip[OF assms] show ?thesis by (simp add: AList.delete_keys)
qed

lemma transform_items_keys:
  "transform_items ks xs new = Inr out \<Longrightarrow>
   fst ` set out = fst ` set new \<union>
     {fk. \<exists>key\<in>fst ` set xs. \<not> skipped ks key \<and> normalise_key key = Inr fk}"
proof (induction xs arbitrary: new)
  case Nil
  then show ?case by simp
next
  case (Cons p xs)
  obtain key v where p: "p = (key, v)" by (cases p)
  show ?case
  proof (cases "skipped ks key")
    case True
    with Cons.prems p have "transform_items ks xs new = Inr out" by simp
    from Cons.IH[OF this] True p show ?thesis by auto
  next
    case False
    with Cons.prems p obtain s fk where s: "encode_value v = Inr s"
      and fk: "normalise_key key = Inr fk"
      and r: "transform_items ks xs (AList.update fk s new) = Inr out"
      by (auto split: sum.splits)
    from Cons.IH[OF r] False fk p show ?thesis by (auto simp: AList.dom_update)
  qed
qed

lemma transform_items_untouched:
  "transform_items ks xs new = Inr out \<Longrightarrow>
   \<forall>key\<in>fst ` set xs. skipped ks key \<or> normalise_key key \<noteq> Inr fk \<Longrightarrow>
   map_of out fk = map_of new fk"
proof (induction xs arbitrary: new)
  case Nil
  then show ?case by simp
next
  case (Cons p xs)
  obtain key v where p: "p = (key, v)" by (cases p)
  from Cons.prems(2) have rest: "\<forall>key\<in>fst ` set xs. skipped ks key \<or> normalise_key key \<noteq> Inr fk"
    by simp
  show ?case
  proof (cases "skipped ks key")
    case True
    with Cons.prems p have "transform_items ks xs new = Inr out" by simp
    from Cons.IH[OF this rest] show ?thesis .
  next
    case False
    with Cons.prems p obtain s fk' where s: "encode_value v = Inr s"
      and fk': "normalise_key key = Inr fk'"
      and r: "transform_items ks xs (AList.update fk' s new) = Inr out"
      by (auto split: sum.splits)
    from Cons.prems(2) False p fk' have "fk' \<noteq> fk" by auto
    with Cons.IH[OF r rest] show ?thesis by (simp add: AList.update_conv')
  qed
qed

lemma transform_items_value:
  assumes "transform_items ks xs new = Inr out"
    and "distinct (map fst xs)"
    and "(key, v) \<in> set xs"
    and "\<not> skipped ks key"
    and "normalise_key key = Inr fk"
    and "\<forall>key'\<in>fst ` set xs. key' \<noteq> key \<longrightarrow> skipped ks key' \<or> normalise_key key' \<noteq> Inr fk"
  shows "\<exists>s. encode_value v = Inr s \<and> map_of out fk = Some s"
  using assms
proof (induction xs arbitrary: new)
  case Nil
  then show ?case by simp
next
  case (Cons p xs)
  obtain key2 v2 where p: "p = (key2, v2)" by (cases p)
  show ?case
  proof (cases "key2 = key")
    case True
    with Cons.prems(2,3) p have v2: "v2 = v" and notin: "key \<notin> fst ` set xs"
      by (auto simp: image_iff)
    from Cons.prems(1,4,5) p True v2 obtain s where s: "encode_value v = Inr s"
      and r: "transform_items ks xs (AList.update fk s new) = Inr out"
      by (auto split: sum.splits)
    have "\<forall>key'\<in>fst ` set xs. skipped ks key' \<or> normalise_key key' \<noteq> Inr fk"
    proof
      fix key' assume k: "key' \<in> fst ` set xs"
      with notin have "key' \<noteq> key" by auto
      moreover from k have "key' \<in> fst ` set (p # xs)" by simp
      ultimately show "skipped ks key' \<or> normalise_key key' \<noteq> Inr fk"
        using Cons.prems(6) by blast
    qed
    from transform_items_untouched[OF r this] s show ?thesis
      by (simp add: AList.update_conv')
  next
    case False
    with Cons.prems(3) p have mem: "(key, v) \<in> set xs" by auto
    from Cons.prems(2) have d: "distinct (map fst xs)" by simp
    from Cons.prems(6) have u: "\<forall>key'\<in>fst ` set xs. key' \<noteq> key \<longrightarrow>
        skipped ks key' \<or> normalise_key key' \<noteq> Inr fk" by simp
    show ?thesis
    proof (cases "skipped ks key2")
      case True
      with Cons.prems(1) p have "transform_items ks xs new = Inr out" by simp
      from Cons.IH[OF this d mem Cons.prems(4,5) u] show ?thesis .
    next
      case False
      with Cons.prems(1) p obtain s' fk' where
        r: "transform_items ks xs (AList.update fk' s' new) = Inr out"
        by (auto split: sum.splits)
      from Cons.IH[OF r d mem Cons.prems(4,5) u] show ?thesis .
    qed
  qed
qed

subsection \<open>The keys that normalise to a reserved name\<close>

lemma str_replace_keeps_head:
  assumes "old \<noteq> []" and "str_replace old (c # d # n) k = c # w"
    and "c \<notin> set w" and "\<not> prefix [d] w"
  shows "k = c # w"
proof (cases k)
  case Nil
  with assms(1,2) show ?thesis by simp
next
  case (Cons x xs)
  show ?thesis
  proof (cases "prefix old k")
    case True
    with assms(1,2) Cons
    have "c # w = (c # d # n) @ str_replace old (c # d # n) (drop (length old) k)"
      by (simp del: prefix_code)
    then have "prefix [d] w" by simp
    with assms(4) show ?thesis by simp
  next
    case False
    with assms(1,2) Cons have x: "x = c" and r: "str_replace old (c # d # n) xs = w"
      by (simp_all del: prefix_code)
    have "xs = w"
      by (rule str_replace_keeps[OF assms(1) _ _ r]) (use assms(3) in simp_all)
    with x Cons show ?thesis by simp
  qed
qed

lemma unnormalised_colour_reserved:
  assumes "unnormalised_colour k = w"
    and "w \<in> {''classes'', ''class'', ''class_'', ''style'', ''style_''}"
  shows "k = w"
proof (cases "prefix ''data-'' k")
  case True
  with assms(1) show ?thesis by (simp add: unnormalised_colour_def)
next
  case False
  with assms(1) have r: "str_replace ''color'' ''colour'' k = w"
    by (simp add: unnormalised_colour_def)
  from assms(2) consider "w = ''classes''" | "w = ''class''" | "w = ''class_''"
    | "w = ''style''" | "w = ''style_''" by auto
  then show ?thesis
  proof cases
    case 1
    show ?thesis unfolding 1
      by (rule str_replace_keeps_head[of "''color''" "CHR ''c''" "CHR ''o''" "''lour''"])
         (use r 1 in simp_all)
  next
    case 2
    show ?thesis unfolding 2
      by (rule str_replace_keeps_head[of "''color''" "CHR ''c''" "CHR ''o''" "''lour''"])
         (use r 2 in simp_all)
  next
    case 3
    show ?thesis unfolding 3
      by (rule str_replace_keeps_head[of "''color''" "CHR ''c''" "CHR ''o''" "''lour''"])
         (use r 3 in simp_all)
  next
    case 4
    show ?thesis
      by (rule str_replace_keeps[of "''color''" "''colour''", OF _ _ _ r]) (use 4 in simp_all)
  next
    case 5
    show ?thesis
      by (rule str_replace_keeps[of "''color''" "''colour''", OF _ _ _ r]) (use 5 in simp_all)
  qed
qed

lemma rename_colour_reserved:
  assumes "rename_colour h = w" and "w \<in> {''class'', ''style''}"
  shows "h = w"
proof (cases "prefix ''data-'' h")
  case True
  with assms(1) show ?thesis by (simp add: rename_colour_def)
next
  case False
  with assms(1) have r: "str_replace ''colour'' ''color'' h = w"
    by (simp add: rename_colour_def)
  from assms(2) consider "w = ''class''" | "w = ''style''" by auto
  then show ?thesis
  proof cases
    case 1
    show ?thesis unfolding 1
      by (rule str_replace_keeps_head[of "''colour''" "CHR ''c''" "CHR ''o''" "''lor''"])
         (use r 1 in simp_all)
  next
    case 2
    show ?thesis
      by (rule str_replace_keeps[of "''colour''" "''color''", OF _ _ _ r]) (use 2 in simp_all)
  qed
qed

lemma underscores_fixed:
  "CHR ''_'' \<notin> set (map (\<lambda>c. if c = CHR '' '' then CHR ''_'' else c) (underscores k)) \<Longrightarrow>
   CHR ''-'' \<notin> set (map (\<lambda>c. if c = CHR '' '' then CHR ''_'' else c) (underscores k)) \<Longrightarrow>
   map (\<lambda>c. if c = CHR '' '' then CHR ''_'' else c) (underscores k) = k"
proof (induction k rule: underscores.induct)
  case 1
  show ?case by simp
next
  case (2 c)
  show ?case
  proof (cases "c = CHR ''_''")
    case True
    with "2.prems"(2) show ?thesis by simp
  next
    case False
    show ?thesis
    proof (cases "c = CHR '' ''")
      case True
      with "2.prems"(1) show ?thesis by simp
    next
      case False
      with \<open>c \<noteq> CHR ''_''\<close> show ?thesis by simp
    qed
  qed
next
  case (3 c d r)
  show ?case
  proof (cases "c = CHR ''_''")
    case True
    show ?thesis
    proof (cases "d = CHR ''_''")
      case True
      with \<open>c = CHR ''_''\<close> "3.prems"(1) show ?thesis by simp
    next
      case False
      with \<open>c = CHR ''_''\<close> "3.prems"(2) show ?thesis by simp
    qed
  next
    case False
    note c = this
    show ?thesis
    proof (cases "c = CHR '' ''")
      case True
      with c "3.prems"(1) show ?thesis by simp
    next
      case False
      from c "3.prems" have
        "CHR ''_'' \<notin> set (map (\<lambda>c. if c = CHR '' '' then CHR ''_'' else c) (underscores (d # r)))"
        "CHR ''-'' \<notin> set (map (\<lambda>c. if c = CHR '' '' then CHR ''_'' else c) (underscores (d # r)))"
        by simp_all
      from "3.IH"(2)[OF _ this] c False show ?thesis by simp
    qed
  qed
qed

lemma strip_trailing_cases:
  assumes "strip_trailing key = Inr k"
  shows "key = k \<or> key = k @ ''_''"
proof (cases "rev key")
  case Nil
  with assms show ?thesis by (simp add: strip_trailing_def)
next
  case (Cons c r)
  then have "rev (rev key) = rev (c # r)" by (rule arg_cong)
  then have key: "key = rev r @ [c]" by simp
  show ?thesis
  proof (cases "c = CHR ''_''")
    case False
    with assms Cons show ?thesis by (simp add: strip_trailing_def)
  next
    case True
    note c = this
    show ?thesis
    proof (cases r)
      case Nil
      with assms Cons c show ?thesis by (simp add: strip_trailing_def)
    next
      case (Cons d r')
      show ?thesis
      proof (cases "d = CHR ''_''")
        case True
        with assms \<open>rev key = c # r\<close> c Cons show ?thesis by (simp add: strip_trailing_def)
      next
        case False
        with assms \<open>rev key = c # r\<close> c Cons have "k = butlast key"
          by (simp add: strip_trailing_def)
        with key c show ?thesis by (simp add: butlast_append)
      qed
    qed
  qed
qed

lemma normalise_key_reserved:
  assumes "normalise_key key = Inr w" and "w \<in> {''class'', ''style''}"
  shows "key = w \<or> key = w @ ''_''"
proof -
  from assms(1) obtain k where k: "strip_trailing key = Inr k"
    and r: "rename_colour (hyphenate k) = w"
    by (auto simp: normalise_key_def split: sum.splits)
  from rename_colour_reserved[OF r assms(2)] have h: "hyphenate k = w" .
  have "CHR ''_'' \<notin> set (hyphenate k)" "CHR ''-'' \<notin> set (hyphenate k)"
    using assms(2) unfolding h by auto
  then have "hyphenate k = k"
    unfolding hyphenate_underscores by (rule underscores_fixed)
  with h have "k = w" by simp
  with strip_trailing_cases[OF k] show ?thesis by simp
qed

subsection \<open>The two normalisations before the loop\<close>

lemma pop_classes_delete:
  assumes "k \<noteq> ''classes''" and "k \<noteq> ''class''"
  shows "pop_classes (AList.delete k a) = (AList.delete k (fst (pop_classes a)), snd (pop_classes a))"
proof -
  have m: "map_of (AList.delete k a) ''classes'' = map_of a ''classes''"
    using assms(1) by simp
  have t: "AList.delete ''classes'' (AList.delete k a) = AList.delete k (AList.delete ''classes'' a)"
    by (rule AList.delete_twist)
  have u: "AList.update ''class'' v (AList.delete k b) = AList.delete k (AList.update ''class'' v b)"
    for v and b :: "pyval dict"
    using assms(2) by (simp add: AList.delete_update)
  show ?thesis
    unfolding pop_classes_def m t
    by (simp add: Let_def u split: pyval.splits option.splits)
qed

lemma pop_style_delete:
  assumes "k \<noteq> ''style''"
  shows "pop_style (AList.delete k a) = (AList.delete k (fst (pop_style a)), snd (pop_style a))"
proof -
  have m: "map_of (AList.delete k a) ''style'' = map_of a ''style''"
    using assms by simp
  have t: "AList.delete ''style'' (AList.delete k a) = AList.delete k (AList.delete ''style'' a)"
    by (rule AList.delete_twist)
  have u: "AList.update ''style'' v (AList.delete k b) = AList.delete k (AList.update ''style'' v b)"
    for v and b :: "pyval dict"
    using assms by (simp add: AList.delete_update)
  show ?thesis
    unfolding pop_style_def m t
    by (simp add: Let_def u split: pyval.splits option.splits sum.splits)
qed

lemma snd_transform:
  "snd (transform a) =
     (case snd (pop_classes a) of
        Some e \<Rightarrow> Inl e
      | None \<Rightarrow>
          (case snd (pop_style (fst (pop_classes a))) of
             Some e \<Rightarrow> Inl e
           | None \<Rightarrow>
               transform_items (map fst (fst (pop_style (fst (pop_classes a)))))
                 (fst (pop_style (fst (pop_classes a)))) []))"
proof -
  obtain a1 e1 where 1: "pop_classes a = (a1, e1)" by (cases "pop_classes a")
  obtain a2 e2 where 2: "pop_style a1 = (a2, e2)" by (cases "pop_style a1")
  show ?thesis by (simp add: transform_def 1 2 split: option.splits)
qed

lemma transform_ok:
  assumes "snd (transform a) = Inr out"
  shows "snd (pop_classes a) = None"
    and "snd (pop_style (fst (pop_classes a))) = None"
    and "fst (transform a) = fst (pop_style (fst (pop_classes a)))"
    and "transform_items (map fst (fst (transform a))) (fst (transform a)) [] = Inr out"
proof -
  from assms show 1: "snd (pop_classes a) = None"
    by (simp add: snd_transform split: option.splits)
  from assms 1 show 2: "snd (pop_style (fst (pop_classes a))) = None"
    by (simp add: snd_transform split: option.splits)
  from 1 show 3: "fst (transform a) = fst (pop_style (fst (pop_classes a)))"
    by (simp add: fst_transform)
  from assms 1 2 show "transform_items (map fst (fst (transform a))) (fst (transform a)) [] = Inr out"
    unfolding 3 by (simp add: snd_transform)
qed

lemma pop_classes_keys_sup:
  "key \<in> fst ` set a \<Longrightarrow> key \<noteq> ''classes'' \<Longrightarrow> key \<in> fst ` set (fst (pop_classes a))"
proof -
  assume k: "key \<in> fst ` set a" "key \<noteq> ''classes''"
  then have "map_of a key \<noteq> None" by (simp add: map_of_eq_None_iff)
  with k(2) have "map_of (fst (pop_classes a)) key \<noteq> None"
    by (cases "key = ''class''")
       (simp_all add: pop_classes_def Let_def AList.update_conv' split: pyval.splits option.splits)
  then show ?thesis by (simp add: map_of_eq_None_iff)
qed

lemma pop_style_keys_sup:
  "key \<in> fst ` set a \<Longrightarrow> key \<noteq> ''style'' \<Longrightarrow> key \<in> fst ` set (fst (pop_style a))"
proof -
  assume k: "key \<in> fst ` set a" "key \<noteq> ''style''"
  then have "map_of a key \<noteq> None" by (simp add: map_of_eq_None_iff)
  with k(2) have "map_of (fst (pop_style a)) key \<noteq> None"
    by (simp add: pop_style_frame)
  then show ?thesis by (simp add: map_of_eq_None_iff)
qed

lemma pop_classes_keys: "fst ` set (fst (pop_classes a)) \<subseteq> insert ''class'' (fst ` set a)"
  using AList.dom_delete_subset[of "''classes''" a]
  by (auto simp: pop_classes_def Let_def AList.dom_update split: pyval.splits option.splits)

lemma pop_classes_distinct: "distinct (map fst a) \<Longrightarrow> distinct (map fst (fst (pop_classes a)))"
  by (simp add: pop_classes_def Let_def AList.distinct_update AList.distinct_delete
      split: pyval.splits option.splits)

lemma pop_style_distinct: "distinct (map fst a) \<Longrightarrow> distinct (map fst (fst (pop_style a)))"
  by (simp add: pop_style_def Let_def AList.distinct_update AList.distinct_delete
      split: pyval.splits option.splits sum.splits)

lemma transform_keys_sup:
  assumes "snd (transform a) = Inr out" and "key \<in> fst ` set a"
    and "key \<noteq> ''classes''" and "key \<noteq> ''style''"
  shows "key \<in> fst ` set (fst (transform a))"
  unfolding transform_ok(3)[OF assms(1)]
  by (intro pop_style_keys_sup pop_classes_keys_sup assms(2,3,4))

lemma transform_keys_sub:
  "fst ` set (fst (transform a)) \<subseteq> insert ''class'' (insert ''style'' (fst ` set a))"
proof (cases "snd (pop_classes a)")
  case None
  then have eq: "fst (transform a) = fst (pop_style (fst (pop_classes a)))"
    by (simp add: fst_transform)
  from pop_style_keys[of "fst (pop_classes a)"]
    insert_mono[OF pop_classes_keys[of a], of "''style''"]
  have "fst ` set (fst (pop_style (fst (pop_classes a))))
          \<subseteq> insert ''style'' (insert ''class'' (fst ` set a))"
    by (rule subset_trans)
  then show ?thesis unfolding eq by (simp add: insert_commute)
next
  case (Some e)
  then have eq: "fst (transform a) = fst (pop_classes a)" by (simp add: fst_transform)
  show ?thesis unfolding eq using pop_classes_keys[of a] by (rule subset_trans) auto
qed

lemma transform_distinct:
  "distinct (map fst a) \<Longrightarrow> distinct (map fst (fst (transform a)))"
  by (simp add: fst_transform pop_classes_distinct pop_style_distinct split: option.splits)

lemma transform_lookup:
  "k \<noteq> ''classes'' \<Longrightarrow> k \<noteq> ''class'' \<Longrightarrow> k \<noteq> ''style'' \<Longrightarrow>
   map_of (fst (transform a)) k = map_of a k"
  by (simp add: fst_transform pop_classes_frame pop_style_frame split: option.splits)

subsection \<open>The value of a processed key\<close>

lemma unnormalised_colour_reserved_fixed:
  "w \<in> {''classes'', ''class'', ''class_'', ''style'', ''style_''} \<Longrightarrow> unnormalised_colour w = w"
  by (auto simp: unnormalised_colour_def)

lemma unnormalised_colour_not_reserved:
  assumes "unnormalised_colour k \<noteq> k"
  shows "unnormalised_colour k \<notin> {''classes'', ''class'', ''class_'', ''style'', ''style_''}"
    and "k \<notin> {''classes'', ''class'', ''class_'', ''style'', ''style_''}"
proof -
  show "unnormalised_colour k \<notin> {''classes'', ''class'', ''class_'', ''style'', ''style_''}"
  proof
    assume "unnormalised_colour k \<in> {''classes'', ''class'', ''class_'', ''style'', ''style_''}"
    from unnormalised_colour_reserved[OF refl this] assms show False by simp
  qed
  show "k \<notin> {''classes'', ''class'', ''class_'', ''style'', ''style_''}"
  proof
    assume "k \<in> {''classes'', ''class'', ''class_'', ''style'', ''style_''}"
    from unnormalised_colour_reserved_fixed[OF this] assms show False by simp
  qed
qed

lemma skipped_transform:
  assumes "snd (transform a) = Inr out"
  shows "skipped (map fst (fst (transform a))) key = skipped (map fst a) key"
proof (cases "unnormalised_colour key = key")
  case True
  then show ?thesis by (simp add: skipped_def)
next
  case False
  from unnormalised_colour_not_reserved(1)[OF False]
  have r: "unnormalised_colour key \<noteq> ''classes''" "unnormalised_colour key \<noteq> ''class''"
    "unnormalised_colour key \<noteq> ''style''" by simp_all
  have "unnormalised_colour key \<in> fst ` set (fst (transform a))
          \<longleftrightarrow> unnormalised_colour key \<in> fst ` set a"
  proof
    assume "unnormalised_colour key \<in> fst ` set (fst (transform a))"
    with transform_keys_sub[of a] r show "unnormalised_colour key \<in> fst ` set a" by auto
  next
    assume "unnormalised_colour key \<in> fst ` set a"
    from transform_keys_sup[OF assms this r(1,3)]
    show "unnormalised_colour key \<in> fst ` set (fst (transform a))" .
  qed
  then show ?thesis by (simp add: skipped_def)
qed

lemma colour_pair_dropped:
  assumes "unnormalised_colour k \<noteq> k" and "unnormalised_colour k \<in> fst ` set a"
  shows "snd (transform (AList.delete k a)) = snd (transform a)"
proof -
  from unnormalised_colour_not_reserved[OF assms(1)]
  have u: "unnormalised_colour k \<noteq> ''classes''" "unnormalised_colour k \<noteq> ''style''"
    and k: "k \<noteq> ''classes''" "k \<noteq> ''class''" "k \<noteq> ''style''" by simp_all
  let ?a1 = "fst (pop_classes a)"
  let ?a2 = "fst (pop_style ?a1)"
  have pc: "pop_classes (AList.delete k a) = (AList.delete k ?a1, snd (pop_classes a))"
    using k(1,2) by (rule pop_classes_delete)
  have ps: "pop_style (AList.delete k ?a1) = (AList.delete k ?a2, snd (pop_style ?a1))"
    using k(3) by (rule pop_style_delete)
  have "unnormalised_colour k \<in> fst ` set ?a2"
    by (intro pop_style_keys_sup pop_classes_keys_sup assms(2) u)
  with assms(1) have "skipped (map fst ?a2) k" by (auto simp: skipped_def)
  then have "transform_items (map fst (AList.delete k ?a2)) (AList.delete k ?a2) []
               = transform_items (map fst ?a2) ?a2 []"
    by (rule transform_items_delete)
  then show ?thesis
    by (simp add: snd_transform[of "AList.delete k a"] snd_transform[of a] pc ps
        split: option.splits)
qed

lemma transform_items_processed:
  "transform_items ks xs new = Inr out \<Longrightarrow> (key, v) \<in> set xs \<Longrightarrow> \<not> skipped ks key \<Longrightarrow>
   \<exists>fk s. normalise_key key = Inr fk \<and> encode_value v = Inr s"
proof (induction xs arbitrary: new)
  case Nil
  then show ?case by simp
next
  case (Cons p xs)
  obtain key2 v2 where p: "p = (key2, v2)" by (cases p)
  show ?case
  proof (cases "(key, v) = p")
    case True
    with Cons.prems(1,3) p show ?thesis by (auto split: sum.splits)
  next
    case False
    with Cons.prems(2) have mem: "(key, v) \<in> set xs" by simp
    show ?thesis
    proof (cases "skipped ks key2")
      case True
      with Cons.prems(1) p have "transform_items ks xs new = Inr out" by simp
      from Cons.IH[OF this mem Cons.prems(3)] show ?thesis .
    next
      case False
      with Cons.prems(1) p obtain s' fk' where
        "transform_items ks xs (AList.update fk' s' new) = Inr out"
        by (auto split: sum.splits)
      from Cons.IH[OF this mem Cons.prems(3)] show ?thesis .
    qed
  qed
qed

lemma transform_value:
  assumes d: "distinct (map fst a)"
    and ok: "snd (transform a) = Inr out"
    and m: "map_of a key = Some v"
    and r: "key \<notin> {''classes'', ''class'', ''class_'', ''style'', ''style_''}"
    and ns: "unnormalised_colour key = key"
  shows "\<exists>fk s. normalise_key key = Inr fk \<and> encode_value v = Inr s \<and> fk \<in> fst ` set out \<and>
           ((\<forall>key'\<in>fst ` set a. key' \<noteq> key \<longrightarrow>
               skipped (map fst a) key' \<or> normalise_key key' \<noteq> Inr fk) \<longrightarrow>
            map_of out fk = Some s)"
proof -
  let ?a2 = "fst (transform a)"
  let ?ks = "map fst ?a2"
  note items = transform_ok(4)[OF ok]
  from r have "key \<noteq> ''classes''" "key \<noteq> ''class''" "key \<noteq> ''style''" by simp_all
  then have "map_of ?a2 key = Some v" using m by (simp add: transform_lookup)
  then have mem: "(key, v) \<in> set ?a2" by (rule map_of_SomeD)
  have nsk: "\<not> skipped ?ks key" using ns by (simp add: skipped_def)
  from transform_items_processed[OF items mem nsk]
  obtain fk s where fk: "normalise_key key = Inr fk" and s: "encode_value v = Inr s" by blast
  have "fk \<in> fst ` set out"
    unfolding transform_items_keys[OF items] using mem nsk fk by force
  moreover have "map_of out fk = Some s"
    if uniq: "\<forall>key'\<in>fst ` set a. key' \<noteq> key \<longrightarrow>
                skipped (map fst a) key' \<or> normalise_key key' \<noteq> Inr fk"
  proof -
    have fk_res: "fk \<notin> {''class'', ''style''}"
    proof
      assume "fk \<in> {''class'', ''style''}"
      from normalise_key_reserved[OF fk this] this r show False by auto
    qed
    have "\<forall>key'\<in>fst ` set ?a2. key' \<noteq> key \<longrightarrow>
            skipped ?ks key' \<or> normalise_key key' \<noteq> Inr fk"
    proof (intro ballI impI)
      fix key' assume k': "key' \<in> fst ` set ?a2" "key' \<noteq> key"
      show "skipped ?ks key' \<or> normalise_key key' \<noteq> Inr fk"
      proof (cases "key' \<in> fst ` set a")
        case True
        with uniq k'(2) have "skipped (map fst a) key' \<or> normalise_key key' \<noteq> Inr fk" by blast
        then show ?thesis unfolding skipped_transform[OF ok] .
      next
        case False
        with k'(1) transform_keys_sub[of a] have "key' = ''class'' \<or> key' = ''style''" by auto
        then have "normalise_key key' = Inr key'"
          by (auto simp: normalise_key_def strip_trailing_def hyphenate_def rename_colour_def)
        with \<open>key' = ''class'' \<or> key' = ''style''\<close> fk_res show ?thesis by auto
      qed
    qed
    from transform_items_value[OF items transform_distinct[OF d] mem nsk fk this] s
    show ?thesis by simp
  qed
  ultimately show ?thesis using fk s by blast
qed

subsection \<open>The class attribute\<close>

text \<open>
  Claim C4, as stated (no \<open>class\<close> key appears for \<open>classes = {""}\<close>), fails: the test
  \<open>if classes:\<close> reads the set before the empty string is taken out of it, so the set
  \<open>{""}\<close> is true and the output has the \<open>class\<close> attribute, with the empty value.
\<close>

theorem classes_attribute_counterexample:
  "snd (transform [(''classes'', PSet [''''])]) = Inr [(''class'', [dquote, dquote])]"
  by (simp add: transform_unfold)

text \<open>
  Claim C4, amended: for a mapping with a \<open>classes\<close> entry holding a set of strings, and
  no key \<open>class_\<close>, on which \<open>transform\<close> returns: when the set is not empty (the empty
  string counted) the output binds \<open>class\<close> to the space-join of the names other than
  the empty string, its double quotes replaced by the entity, encoded as a JSON
  string; and, when the mapping has no \<open>class\<close> key of its own, the output has the key
  \<open>class\<close> exactly when the set is not empty.
\<close>

theorem classes_attribute:
  assumes "distinct (map fst a)"
    and "map_of a ''classes'' = Some (PSet cs)"
    and "''class_'' \<notin> fst ` set a"
    and "snd (transform a) = Inr out"
  shows "(cs \<noteq> [] \<longrightarrow>
            map_of out ''class'' =
              Some (json_str (str_replace [dquote] ''&quot;''
                      (join '' '' (filter (\<lambda>c. c \<noteq> []) cs))))) \<and>
         (''class'' \<notin> fst ` set a \<longrightarrow> (''class'' \<in> fst ` set out \<longleftrightarrow> cs \<noteq> []))"
proof -
  let ?a2 = "fst (transform a)"
  let ?ks = "map fst ?a2"
  let ?j = "join '' '' (filter (\<lambda>c. c \<noteq> []) cs)"
  note ok = assms(4)
  note items = transform_ok(4)[OF ok]
  have a2: "?a2 = fst (pop_style (fst (pop_classes a)))" by (rule transform_ok(3)[OF ok])
  have no_class_: "''class_'' \<notin> fst ` set ?a2"
  proof
    assume "''class_'' \<in> fst ` set ?a2"
    then have "''class_'' \<in> insert ''class'' (insert ''style'' (fst ` set a))"
      using transform_keys_sub[of a] by (rule rev_subsetD)
    with assms(3) show False by simp
  qed
  have sources: "key = ''class''"
    if "key \<in> fst ` set ?a2" and "normalise_key key = Inr ''class''" for key
  proof -
    from normalise_key_reserved[OF that(2)] have "key = ''class'' \<or> key = ''class_''" by simp
    moreover have "key \<noteq> ''class_''"
    proof
      assume "key = ''class_''"
      with that(1) have "''class_'' \<in> fst ` set ?a2" by simp
      with no_class_ show False by (rule notE)
    qed
    ultimately show ?thesis by simp
  qed
  have nsk: "\<not> skipped ?ks ''class''" by (simp add: key_unfold)
  have nk: "normalise_key ''class'' = Inr ''class''" by (simp add: key_unfold)
  have clsval: "map_of out ''class'' = Some (json_str (str_replace [dquote] ''&quot;'' ?j))"
    if cs: "cs \<noteq> []"
  proof -
    from assms(2) cs have "map_of (fst (pop_classes a)) ''class'' = Some (PStr ?j)"
      by (simp add: pop_classes_def Let_def AList.update_conv')
    then have "map_of ?a2 ''class'' = Some (PStr ?j)"
      unfolding a2 by (simp add: pop_style_frame)
    then have mem: "(''class'', PStr ?j) \<in> set ?a2" by (rule map_of_SomeD)
    have uniq: "\<forall>key'\<in>fst ` set ?a2. key' \<noteq> ''class'' \<longrightarrow>
        skipped ?ks key' \<or> normalise_key key' \<noteq> Inr ''class''"
    proof (intro ballI impI)
      fix key' assume k': "key' \<in> fst ` set ?a2" "key' \<noteq> ''class''"
      have "normalise_key key' \<noteq> Inr ''class''"
      proof
        assume "normalise_key key' = Inr ''class''"
        from sources[OF k'(1) this] k'(2) show False by simp
      qed
      then show "skipped ?ks key' \<or> normalise_key key' \<noteq> Inr ''class''" by simp
    qed
    from transform_items_value[OF items transform_distinct[OF assms(1)] mem nsk nk uniq]
    show ?thesis by (simp add: encode_value_def)
  qed
  have present: "(''class'' \<in> fst ` set out) = (cs \<noteq> [])" if nc: "''class'' \<notin> fst ` set a"
  proof (cases "cs = []")
    case False
    from clsval[OF False] have "map_of out ''class'' \<noteq> None" by simp
    then have "''class'' \<in> fst ` set out" by (simp add: map_of_eq_None_iff)
    with False show ?thesis by simp
  next
    case True
    with assms(2) have "fst (pop_classes a) = AList.delete ''classes'' a"
      by (simp add: pop_classes_def Let_def)
    then have "fst ` set (fst (pop_classes a)) \<subseteq> fst ` set a"
      using AList.dom_delete_subset[of "''classes''" a] by simp
    then have sub: "insert ''style'' (fst ` set (fst (pop_classes a))) \<subseteq> insert ''style'' (fst ` set a)"
      by (rule insert_mono)
    have absent: "''class'' \<notin> fst ` set ?a2"
    proof
      assume "''class'' \<in> fst ` set ?a2"
      then have "''class'' \<in> fst ` set (fst (pop_style (fst (pop_classes a))))"
        unfolding a2 .
      then have "''class'' \<in> insert ''style'' (fst ` set (fst (pop_classes a)))"
        using pop_style_keys[of "fst (pop_classes a)"] by (rule rev_subsetD)
      then have "''class'' \<in> insert ''style'' (fst ` set a)"
        using sub by (rule rev_subsetD)
      with nc show False by simp
    qed
    have "\<not> (\<exists>key\<in>fst ` set ?a2. \<not> skipped ?ks key \<and> normalise_key key = Inr ''class'')"
    proof
      assume "\<exists>key\<in>fst ` set ?a2. \<not> skipped ?ks key \<and> normalise_key key = Inr ''class''"
      then obtain key where key: "key \<in> fst ` set ?a2" "normalise_key key = Inr ''class''"
        by blast
      from sources[OF key] key(1) have "''class'' \<in> fst ` set ?a2" by simp
      with absent show False by (rule notE)
    qed
    then have "''class'' \<notin> fst ` set out"
      unfolding transform_items_keys[OF items] by simp
    with True show ?thesis by simp
  qed
  show ?thesis
  proof (intro conjI impI)
    assume "cs \<noteq> []"
    then show "map_of out ''class'' = Some (json_str (str_replace [dquote] ''&quot;'' ?j))"
      by (rule clsval)
  next
    assume "''class'' \<notin> fst ` set a"
    then show "(''class'' \<in> fst ` set out) = (cs \<noteq> [])" by (rule present)
  qed
qed

text \<open>The class attribute of the mapping with the classes \<open>a\<close>, the empty string and
  \<open>b\<close>, and an \<open>id\<close>.\<close>

theorem classes_attribute_witness:
  "map_of [(''classes'', PSet [''a'', '''', ''b'']), (''id'', PStr ''x'')] ''classes''
     = Some (PSet [''a'', '''', ''b'']) \<and>
   snd (transform [(''classes'', PSet [''a'', '''', ''b'']), (''id'', PStr ''x'')])
     = Inr [(''id'', [dquote] @ ''x'' @ [dquote]), (''class'', [dquote] @ ''a b'' @ [dquote])] \<and>
   map_of [(''id'', [dquote] @ ''x'' @ [dquote]), (''class'', [dquote] @ ''a b'' @ [dquote])] ''class''
     = Some ([dquote] @ ''a b'' @ [dquote])"
proof -
  let ?a = "[(''classes'', PSet [''a'', '''', ''b'']), (''id'', PStr ''x'')]"
  let ?out = "[(''id'', [dquote] @ ''x'' @ [dquote]), (''class'', [dquote] @ ''a b'' @ [dquote])]"
  have h1: "distinct (map fst ?a)" by simp
  have h2: "map_of ?a ''classes'' = Some (PSet [''a'', '''', ''b''])" by simp
  have h3: "''class_'' \<notin> fst ` set ?a" by simp
  have h4: "snd (transform ?a) = Inr ?out" by (simp add: transform_unfold)
  have ne: "[''a'', '''', ''b''] \<noteq> []" by simp
  from classes_attribute[OF h1 h2 h3 h4] ne
  have "map_of ?out ''class'' =
          Some (json_str (str_replace [dquote] ''&quot;''
                  (join '' '' (filter (\<lambda>c. c \<noteq> []) [''a'', '''', ''b'']))))"
    by blast
  then have "map_of ?out ''class'' = Some ([dquote] @ ''a b'' @ [dquote])"
    by (simp add: json_str_def json_escape_char_def)
  with h2 h4 show ?thesis by simp
qed

subsection \<open>Both spellings of a colour attribute\<close>

text \<open>
  Claim C6, as stated (the value of the colour-spelled key appears under a key ending in
  \<open>-color\<close>), fails: for the keys \<open>data_color\<close> and \<open>data_colour\<close> the first does not start
  with \<open>data-\<close>, it is dropped, and the second is emitted as \<open>data-colour\<close>.
\<close>

theorem colour_sibling_counterexample:
  "snd (transform [(''data_color'', PStr ''a''), (''data_colour'', PStr ''b'')])
     = Inr [(''data-colour'', [dquote] @ ''b'' @ [dquote])] \<and>
   \<not> suffix ''-color'' ''data-colour''"
  by (simp add: transform_unfold suffix_def)

text \<open>
  Claim C6, amended: when a key \<open>k\<close> that does not start with \<open>data-\<close> and the different
  key \<open>k.replace("color", "colour")\<close> are both present, the entry of \<open>k\<close> contributes
  nothing: the result is the one of the mapping without it. When \<open>transform\<close> returns, the
  output has the normalised name of the colour-spelled key, and binds it to the encoded
  value of that key provided that no other processed key normalises to the same name.
\<close>

theorem colour_sibling_dropped:
  assumes "distinct (map fst a)"
    and "k' = str_replace ''color'' ''colour'' k" and "k \<noteq> k'" and "\<not> prefix ''data-'' k"
    and "k \<in> fst ` set a" and "map_of a k' = Some v'"
  shows "snd (transform (AList.delete k a)) = snd (transform a) \<and>
         (snd (transform a) = Inr out \<longrightarrow>
            (\<exists>fk s. normalise_key k' = Inr fk \<and> encode_value v' = Inr s \<and>
               fk \<in> fst ` set out \<and>
               ((\<forall>key\<in>fst ` set a. key \<noteq> k' \<longrightarrow>
                    skipped (map fst a) key \<or> normalise_key key \<noteq> Inr fk) \<longrightarrow>
                map_of out fk = Some s)))"
proof -
  from assms(2,4) have u: "unnormalised_colour k = k'" by (simp add: unnormalised_colour_def)
  with assms(3) have ne: "unnormalised_colour k \<noteq> k" by simp
  from assms(6) have "(k', v') \<in> set a" by (rule map_of_SomeD)
  then have "k' \<in> fst ` set a" by force
  with u have "snd (transform (AList.delete k a)) = snd (transform a)"
    by (intro colour_pair_dropped ne) simp
  moreover have "\<exists>fk s. normalise_key k' = Inr fk \<and> encode_value v' = Inr s \<and>
               fk \<in> fst ` set out \<and>
               ((\<forall>key\<in>fst ` set a. key \<noteq> k' \<longrightarrow>
                    skipped (map fst a) key \<or> normalise_key key \<noteq> Inr fk) \<longrightarrow>
                map_of out fk = Some s)"
    if ok: "snd (transform a) = Inr out"
  proof (rule transform_value[OF assms(1) ok assms(6)])
    show "k' \<notin> {''classes'', ''class'', ''class_'', ''style'', ''style_''}"
      using unnormalised_colour_not_reserved(1)[OF ne] u by simp
    show "unnormalised_colour k' = k'"
      using unnormalised_colour_idem[of k] u by simp
  qed
  ultimately show ?thesis by blast
qed

text \<open>The pair \<open>background_color\<close>, \<open>background_colour\<close>: the output is the single
  attribute \<open>background-color\<close> with the value of the second.\<close>

theorem colour_sibling_dropped_witness:
  "snd (transform (AList.delete ''background_color''
          [(''background_color'', PStr ''blue''), (''background_colour'', PStr ''red'')]))
     = snd (transform [(''background_color'', PStr ''blue''), (''background_colour'', PStr ''red'')]) \<and>
   snd (transform [(''background_color'', PStr ''blue''), (''background_colour'', PStr ''red'')])
     = Inr [(''background-color'', [dquote] @ ''red'' @ [dquote])] \<and>
   normalise_key ''background_colour'' = Inr ''background-color''"
proof -
  let ?a = "[(''background_color'', PStr ''blue''), (''background_colour'', PStr ''red'')]"
  have h1: "distinct (map fst ?a)" by simp
  have h2: "''background_colour'' = str_replace ''color'' ''colour'' ''background_color''" by simp
  have h3: "''background_color'' \<noteq> ''background_colour''" by simp
  have h4: "\<not> prefix ''data-'' ''background_color''" by simp
  have h5: "''background_color'' \<in> fst ` set ?a" by simp
  have h6: "map_of ?a ''background_colour'' = Some (PStr ''red'')" by simp
  have ok: "snd (transform ?a) = Inr [(''background-color'', [dquote] @ ''red'' @ [dquote])]"
    by (simp add: transform_unfold)
  have nk: "normalise_key ''background_colour'' = Inr ''background-color''"
    by (simp add: key_unfold)
  from colour_sibling_dropped[OF h1 h2 h3 h4 h5 h6]
  have "snd (transform (AList.delete ''background_color'' ?a)) = snd (transform ?a)"
    by blast
  with ok nk show ?thesis by simp
qed

text \<open>
  Claim C7: the key \<open>data_color\<close> is not exempt from the colour check, its candidate name
  is \<open>data_colour\<close>; when both keys are present the entry of \<open>data_color\<close> is skipped and
  the result is the one of the mapping without it; the key \<open>data_colour\<close> starts with
  \<open>data-\<close> after the hyphenation, so it keeps its spelling and is emitted as
  \<open>data-colour\<close>, bound to its encoded value provided that no other processed key
  normalises to \<open>data-colour\<close>.
\<close>

theorem data_colour_stages:
  assumes "distinct (map fst a)"
    and "''data_color'' \<in> fst ` set a" and "map_of a ''data_colour'' = Some v"
  shows "unnormalised_colour ''data_color'' = ''data_colour'' \<and>
         skipped (map fst a) ''data_color'' \<and>
         snd (transform (AList.delete ''data_color'' a)) = snd (transform a) \<and>
         normalise_key ''data_colour'' = Inr ''data-colour'' \<and>
         (snd (transform a) = Inr out \<longrightarrow>
            ''data-colour'' \<in> fst ` set out \<and>
            ((\<forall>key\<in>fst ` set a. key \<noteq> ''data_colour'' \<longrightarrow>
                 skipped (map fst a) key \<or> normalise_key key \<noteq> Inr ''data-colour'') \<longrightarrow>
             (\<exists>s. encode_value v = Inr s \<and> map_of out ''data-colour'' = Some s)))"
proof -
  have u: "unnormalised_colour ''data_color'' = ''data_colour''"
    by (simp add: unnormalised_colour_def)
  from assms(3) have "(''data_colour'', v) \<in> set a" by (rule map_of_SomeD)
  then have mem: "''data_colour'' \<in> fst ` set a" by force
  with u have sk: "skipped (map fst a) ''data_color''" by (simp add: skipped_def)
  have del: "snd (transform (AList.delete ''data_color'' a)) = snd (transform a)"
    by (rule colour_pair_dropped) (use u mem in simp_all)
  have nk: "normalise_key ''data_colour'' = Inr ''data-colour''"
    by (simp add: key_unfold)
  have "''data-colour'' \<in> fst ` set out \<and>
            ((\<forall>key\<in>fst ` set a. key \<noteq> ''data_colour'' \<longrightarrow>
                 skipped (map fst a) key \<or> normalise_key key \<noteq> Inr ''data-colour'') \<longrightarrow>
             (\<exists>s. encode_value v = Inr s \<and> map_of out ''data-colour'' = Some s))"
    if ok: "snd (transform a) = Inr out"
  proof -
    have "\<exists>fk s. normalise_key ''data_colour'' = Inr fk \<and> encode_value v = Inr s \<and>
             fk \<in> fst ` set out \<and>
             ((\<forall>key'\<in>fst ` set a. key' \<noteq> ''data_colour'' \<longrightarrow>
                 skipped (map fst a) key' \<or> normalise_key key' \<noteq> Inr fk) \<longrightarrow>
              map_of out fk = Some s)"
      by (rule transform_value[OF assms(1) ok assms(3)])
         (simp_all add: unnormalised_colour_def)
    then show ?thesis unfolding nk by auto
  qed
  with u sk del nk show ?thesis by blast
qed

text \<open>The mapping with \<open>data_colour\<close> bound to 1 and \<open>data_color\<close> bound to 2.\<close>

theorem data_colour_stages_witness:
  "skipped (map fst [(''data_colour'', PInt 1), (''data_color'', PInt 2)]) ''data_color'' \<and>
   snd (transform (AList.delete ''data_color'' [(''data_colour'', PInt 1), (''data_color'', PInt 2)]))
     = snd (transform [(''data_colour'', PInt 1), (''data_color'', PInt 2)]) \<and>
   snd (transform [(''data_colour'', PInt 1), (''data_color'', PInt 2)])
     = Inr [(''data-colour'', [dquote] @ ''1'' @ [dquote])]"
proof -
  let ?a = "[(''data_colour'', PInt 1), (''data_color'', PInt 2)]"
  have h1: "distinct (map fst ?a)" by simp
  have h2: "''data_color'' \<in> fst ` set ?a" by simp
  have h3: "map_of ?a ''data_colour'' = Some (PInt 1)" by simp
  have ok: "snd (transform ?a) = Inr [(''data-colour'', [dquote] @ ''1'' @ [dquote])]"
    by (simp add: transform_unfold int_repr_def hexdigit_def)
  from data_colour_stages[OF h1 h2 h3]
  have "skipped (map fst ?a) ''data_color''"
    and "snd (transform (AList.delete ''data_color'' ?a)) = snd (transform ?a)"
    by blast+
  with ok show ?thesis by simp
qed

end
